theory Spec2Isabelle
  imports Main "HOL-Library.Sublist"
begin

section \<open>Python strings\<close>

text \<open>
  A Python \<^verbatim>\<open>str\<close> is a sequence of code points. Lone surrogates
  (U+D800 .. U+DFFF) are legal members of a \<^verbatim>\<open>str\<close> but cannot be encoded
  as UTF-8, so code points are natural numbers here and not 8-bit characters.
\<close>

type_synonym pystr = "nat list"

definition str :: "string \<Rightarrow> pystr" where
  "str s = map of_char s"

definition py_isspace :: "nat \<Rightarrow> bool" where
  \<comment> \<open>the code points \<^verbatim>\<open>str.isspace\<close> accepts, which \<^verbatim>\<open>str.strip()\<close> removes\<close>
  "py_isspace c \<longleftrightarrow>
     (9 \<le> c \<and> c \<le> 13) \<or> (28 \<le> c \<and> c \<le> 32) \<or> c = 133 \<or> c = 160 \<or> c = 5760 \<or>
     (8192 \<le> c \<and> c \<le> 8202) \<or> c = 8232 \<or> c = 8233 \<or> c = 8239 \<or> c = 8287 \<or> c = 12288"

definition comma :: nat where
  "comma = 44"

definition strip_with :: "(nat \<Rightarrow> bool) \<Rightarrow> pystr \<Rightarrow> pystr" where
  \<comment> \<open>\<^verbatim>\<open>str.strip\<close>: drop the matching code points from both ends\<close>
  "strip_with p s = rev (dropWhile p (rev (dropWhile p s)))"

definition py_strip :: "pystr \<Rightarrow> pystr" where
  \<comment> \<open>\<^verbatim>\<open>s.strip()\<close>\<close>
  "py_strip s = strip_with py_isspace s"

definition strip_chars :: "pystr \<Rightarrow> pystr \<Rightarrow> pystr" where
  \<comment> \<open>\<^verbatim>\<open>s.strip(chars)\<close>\<close>
  "strip_chars cs s = strip_with (\<lambda>c. c \<in> set cs) s"

definition endswith :: "pystr \<Rightarrow> pystr \<Rightarrow> bool" where
  \<comment> \<open>\<^verbatim>\<open>s.endswith(suf)\<close>\<close>
  "endswith s suf \<longleftrightarrow> length suf \<le> length s \<and> drop (length s - length suf) s = suf"

fun py_join :: "pystr \<Rightarrow> pystr list \<Rightarrow> pystr" where
  \<comment> \<open>\<^verbatim>\<open>sep.join(xs)\<close>\<close>
  "py_join sep [] = []"
| "py_join sep [x] = x"
| "py_join sep (x # y # ys) = x @ sep @ py_join sep (y # ys)"

section \<open>Trailing-comma cleanup\<close>

text \<open>
  \<^verbatim>\<open>
  def strip_it(inp):
      while inp.strip().endswith(','):
          inp = inp.strip().strip(',')
      return inp
  \<close>
\<close>

lemma length_strip_with_le: "length (strip_with p s) \<le> length s"
proof -
  have "length (dropWhile p (rev (dropWhile p s))) \<le> length (rev (dropWhile p s))"
    by (rule length_dropWhile_le)
  also have "\<dots> \<le> length s"
    by (simp add: length_dropWhile_le)
  finally show ?thesis
    by (simp add: strip_with_def)
qed

lemma length_strip_with_less:
  assumes "s \<noteq> []" and "p (last s)"
  shows "length (strip_with p s) < length s"
proof (cases "dropWhile p s = []")
  case True
  have "strip_with p s = []"
    unfolding strip_with_def True by simp
  with assms(1) show ?thesis
    by simp
next
  case False
  have "last (dropWhile p s) = last s"
    using False by (metis takeWhile_dropWhile_id last_appendR)
  then have "p (hd (rev (dropWhile p s)))"
    using False assms(2) by (simp add: hd_rev)
  moreover have "rev (dropWhile p s) \<noteq> []"
    using False by simp
  ultimately have "length (dropWhile p (rev (dropWhile p s))) < length (rev (dropWhile p s))"
    by (cases "rev (dropWhile p s)") (auto simp: less_Suc_eq_le length_dropWhile_le)
  also have "\<dots> \<le> length s"
    by (simp add: length_dropWhile_le)
  finally show ?thesis
    by (simp add: strip_with_def)
qed

lemma endswith_comma_iff: "endswith s [comma] \<longleftrightarrow> s \<noteq> [] \<and> last s = comma"
proof (cases s rule: rev_cases)
  case Nil
  then show ?thesis by (simp add: endswith_def)
next
  case (snoc ys y)
  then show ?thesis by (auto simp: endswith_def)
qed

lemma strip_it_step_shorter:
  assumes "endswith (py_strip inp) [comma]"
  shows "length (strip_chars [comma] (py_strip inp)) < length inp"
proof -
  from assms have ne: "py_strip inp \<noteq> []" and l: "last (py_strip inp) = comma"
    by (simp_all add: endswith_comma_iff)
  then have "length (strip_chars [comma] (py_strip inp)) < length (py_strip inp)"
    unfolding strip_chars_def by (intro length_strip_with_less) simp_all
  also have "\<dots> \<le> length inp"
    unfolding py_strip_def by (rule length_strip_with_le)
  finally show ?thesis .
qed

function strip_it :: "pystr \<Rightarrow> pystr" where
  "strip_it inp =
     (if endswith (py_strip inp) [comma]
      then strip_it (strip_chars [comma] (py_strip inp))
      else inp)"
  by pat_completeness auto
termination
  by (relation "measure length") (simp_all add: strip_it_step_shorter)

declare strip_it.simps [simp del]

function strip_it_iterations :: "pystr \<Rightarrow> nat" where
  \<comment> \<open>how many times the body of the loop of \<^verbatim>\<open>strip_it\<close> runs\<close>
  "strip_it_iterations inp =
     (if endswith (py_strip inp) [comma]
      then Suc (strip_it_iterations (strip_chars [comma] (py_strip inp)))
      else 0)"
  by pat_completeness auto
termination
  by (relation "measure length") (simp_all add: strip_it_step_shorter)

declare strip_it_iterations.simps [simp del]

lemmas str_eval =
  str_def py_strip_def strip_chars_def strip_with_def py_isspace_def comma_def endswith_def

partial_function (option) strip_it_while :: "pystr \<Rightarrow> pystr option" where
  \<comment> \<open>the same loop with nothing assumed about its termination: \<open>None\<close> is a run that
      never leaves the loop\<close>
  "strip_it_while inp =
     (if endswith (py_strip inp) [comma]
      then strip_it_while (strip_chars [comma] (py_strip inp))
      else Some inp)"

lemma strip_it_while_eq: "strip_it_while inp = Some (strip_it inp)"
proof (induction inp rule: strip_it.induct)
  case (1 inp)
  show ?case
  proof (cases "endswith (py_strip inp) [comma]")
    case True
    with 1 show ?thesis
      by (subst strip_it_while.simps, subst strip_it.simps) simp
  next
    case False
    then show ?thesis
      by (subst strip_it_while.simps, subst strip_it.simps) simp
  qed
qed

lemma strip_it_iterations_le: "strip_it_iterations inp \<le> length inp"
proof (induction inp rule: strip_it_iterations.induct)
  case (1 inp)
  show ?case
  proof (cases "endswith (py_strip inp) [comma]")
    case True
    from 1 [OF True] strip_it_step_shorter [OF True] show ?thesis
      by (subst strip_it_iterations.simps) (simp add: True)
  next
    case False
    then show ?thesis
      by (subst strip_it_iterations.simps) simp
  qed
qed

lemma strip_with_decomp:
  "s = takeWhile p s @ strip_with p s @ rev (takeWhile p (rev (dropWhile p s)))"
proof -
  let ?u = "dropWhile p s"
  have "?u = rev (dropWhile p (rev ?u)) @ rev (takeWhile p (rev ?u))"
    by (metis rev_append rev_rev_ident takeWhile_dropWhile_id)
  then have "?u = strip_with p s @ rev (takeWhile p (rev ?u))"
    unfolding strip_with_def .
  moreover have "s = takeWhile p s @ ?u"
    by simp
  ultimately show ?thesis
    by metis
qed

lemma strip_with_sandwich:
  "\<exists>pre suf. s = pre @ strip_with p s @ suf \<and> (\<forall>c\<in>set pre. p c) \<and> (\<forall>c\<in>set suf. p c)"
proof (intro exI conjI)
  show "s = takeWhile p s @ strip_with p s @ rev (takeWhile p (rev (dropWhile p s)))"
    by (rule strip_with_decomp)
  show "\<forall>c\<in>set (takeWhile p s). p c"
    by (auto dest: set_takeWhileD)
  show "\<forall>c\<in>set (rev (takeWhile p (rev (dropWhile p s)))). p c"
    by (auto dest: set_takeWhileD)
qed

lemma strip_with_keeps_head:
  assumes "s \<noteq> []" and "\<not> p (hd s)"
  shows "strip_with p s \<noteq> [] \<and> hd (strip_with p s) = hd s \<and>
         (\<exists>suf. s = strip_with p s @ suf \<and> (\<forall>c\<in>set suf. p c))"
proof -
  from assms have d: "dropWhile p s = s"
    by (cases s) simp_all
  have dec: "s = strip_with p s @ rev (takeWhile p (rev s))"
    using strip_with_decomp [of s p] assms by (cases s) (simp_all add: d)
  have ne: "strip_with p s \<noteq> []"
  proof
    assume "strip_with p s = []"
    with dec have "s = rev (takeWhile p (rev s))"
      by simp
    then have "set s = set (takeWhile p (rev s))"
      by (metis set_rev)
    moreover have "hd s \<in> set s"
      using assms(1) by simp
    ultimately have "p (hd s)"
      by (auto dest: set_takeWhileD)
    with assms(2) show False ..
  qed
  have "hd (strip_with p s) = hd s"
    using dec ne by (metis hd_append2)
  moreover have "\<forall>c\<in>set (rev (takeWhile p (rev s))). p c"
    by (auto dest: set_takeWhileD)
  ultimately show ?thesis
    using ne dec by blast
qed

lemma strip_it_no_trailing_comma: "\<not> endswith (py_strip (strip_it inp)) [comma]"
proof (induction inp rule: strip_it.induct)
  case (1 inp)
  then show ?case
    by (subst strip_it.simps) simp
qed

lemma strip_it_removes_only_ws_commas:
  "\<exists>pre suf. inp = pre @ strip_it inp @ suf \<and>
     (\<forall>c\<in>set (pre @ suf). py_isspace c \<or> c = comma)"
proof (induction inp rule: strip_it.induct)
  case (1 inp)
  show ?case
  proof (cases "endswith (py_strip inp) [comma]")
    case False
    then have "strip_it inp = inp"
      by (subst strip_it.simps) simp
    then have "inp = [] @ strip_it inp @ [] \<and> (\<forall>c\<in>set ([] @ []). py_isspace c \<or> c = comma)"
      by simp
    then show ?thesis
      by blast
  next
    case True
    let ?t = "py_strip inp"
    let ?u = "strip_chars [comma] ?t"
    from 1 [OF True] obtain pre suf where
      u: "?u = pre @ strip_it ?u @ suf" and ps: "\<forall>c\<in>set (pre @ suf). py_isspace c \<or> c = comma"
      by blast
    obtain a b where t: "inp = a @ ?t @ b"
      and a: "\<forall>c\<in>set a. py_isspace c" and b: "\<forall>c\<in>set b. py_isspace c"
      using strip_with_sandwich [of inp py_isspace] unfolding py_strip_def by blast
    obtain c d where tu: "?t = c @ ?u @ d"
      and c: "\<forall>x\<in>set c. x = comma" and d: "\<forall>x\<in>set d. x = comma"
      using strip_with_sandwich [of ?t "\<lambda>c. c \<in> set [comma]"] unfolding strip_chars_def by auto
    have r: "strip_it inp = strip_it ?u"
      by (subst strip_it.simps) (simp add: True)
    have "inp = (a @ c @ pre) @ strip_it inp @ (suf @ d @ b)"
      using t tu u r by (metis append.assoc)
    moreover have "\<forall>x\<in>set ((a @ c @ pre) @ (suf @ d @ b)). py_isspace x \<or> x = comma"
      using a b c d ps by auto
    ultimately show ?thesis
      by blast
  qed
qed

lemma strip_it_end_only:
  "inp \<noteq> [] \<Longrightarrow> \<not> py_isspace (hd inp) \<Longrightarrow> hd inp \<noteq> comma \<Longrightarrow>
   \<exists>suf. inp = strip_it inp @ suf \<and> (\<forall>c\<in>set suf. py_isspace c \<or> c = comma)"
proof (induction inp rule: strip_it.induct)
  case (1 inp)
  show ?case
  proof (cases "endswith (py_strip inp) [comma]")
    case False
    then have "strip_it inp = inp"
      by (subst strip_it.simps) simp
    then show ?thesis
      by simp
  next
    case True
    let ?t = "py_strip inp"
    let ?u = "strip_chars [comma] ?t"
    from strip_with_keeps_head [of inp py_isspace] "1.prems"
    obtain b where t: "?t \<noteq> []" "hd ?t = hd inp" "inp = ?t @ b" and b: "\<forall>c\<in>set b. py_isspace c"
      unfolding py_strip_def by blast
    from strip_with_keeps_head [of ?t "\<lambda>c. c \<in> set [comma]"] t "1.prems"
    obtain d where u: "?u \<noteq> []" "hd ?u = hd inp" "?t = ?u @ d" and d: "\<forall>c\<in>set d. c = comma"
      unfolding strip_chars_def by auto
    from "1.IH" [OF True] u "1.prems" obtain suf where
      s: "?u = strip_it ?u @ suf" and suf: "\<forall>c\<in>set suf. py_isspace c \<or> c = comma"
      by auto
    have r: "strip_it inp = strip_it ?u"
      by (subst strip_it.simps) (simp add: True)
    have "inp = strip_it inp @ (suf @ d @ b)"
      using t(3) u(3) s r by (metis append.assoc)
    moreover have "\<forall>x\<in>set (suf @ d @ b). py_isspace x \<or> x = comma"
      using b d suf by auto
    ultimately show ?thesis
      by blast
  qed
qed

subsection \<open>Claims about the cleanup\<close>

text \<open>
  Claim C4, as amended. The cleanup trims whitespace from both ends and then commas from
  both ends, again and again while the whitespace-trimmed string ends with a comma. Its
  result has no trailing comma-with-optional-whitespace; a string whose trimmed form has
  no trailing comma is returned as it is; the result is a contiguous part of the input
  and everything removed around it is whitespace or a comma; for an input that begins
  with neither whitespace nor a comma only the end is removed; and \<open>X, Y, , \<close> becomes
  \<open>X, Y\<close>.
\<close>

theorem strip_it_cleanup:
  "\<not> endswith (py_strip (strip_it inp)) [comma] \<and>
   (\<not> endswith (py_strip inp) [comma] \<longrightarrow> strip_it inp = inp) \<and>
   (\<exists>pre suf. inp = pre @ strip_it inp @ suf \<and>
      (\<forall>c\<in>set (pre @ suf). py_isspace c \<or> c = comma)) \<and>
   (inp \<noteq> [] \<and> \<not> py_isspace (hd inp) \<and> hd inp \<noteq> comma \<longrightarrow>
      (\<exists>suf. inp = strip_it inp @ suf \<and> (\<forall>c\<in>set suf. py_isspace c \<or> c = comma))) \<and>
   strip_it (str ''X, Y, , '') = str ''X, Y''"
proof (intro conjI impI)
  show "\<not> endswith (py_strip (strip_it inp)) [comma]"
    by (rule strip_it_no_trailing_comma)
  show "strip_it inp = inp" if "\<not> endswith (py_strip inp) [comma]"
    using that by (subst strip_it.simps) simp
  show "\<exists>pre suf. inp = pre @ strip_it inp @ suf \<and>
      (\<forall>c\<in>set (pre @ suf). py_isspace c \<or> c = comma)"
    by (rule strip_it_removes_only_ws_commas)
  show "\<exists>suf. inp = strip_it inp @ suf \<and> (\<forall>c\<in>set suf. py_isspace c \<or> c = comma)"
    if "inp \<noteq> [] \<and> \<not> py_isspace (hd inp) \<and> hd inp \<noteq> comma"
    using that by (intro strip_it_end_only) simp_all
  show "strip_it (str ''X, Y, , '') = str ''X, Y''"
    by (simp add: strip_it.simps str_eval)
qed

theorem strip_it_cleanup_witness:
  "str ''A, B, , '' \<noteq> [] \<and> \<not> py_isspace (hd (str ''A, B, , '')) \<and>
   hd (str ''A, B, , '') \<noteq> comma \<and>
   \<not> endswith (py_strip (str ''A, B'')) [comma] \<and>
   strip_it (str ''A, B'') = str ''A, B'' \<and>
   (\<exists>suf. str ''A, B, , '' = strip_it (str ''A, B, , '') @ suf \<and>
      (\<forall>c\<in>set suf. py_isspace c \<or> c = comma))"
proof -
  have h: "str ''A, B, , '' \<noteq> [] \<and> \<not> py_isspace (hd (str ''A, B, , '')) \<and>
      hd (str ''A, B, , '') \<noteq> comma"
    by (simp add: str_eval)
  have n: "\<not> endswith (py_strip (str ''A, B'')) [comma]"
    by (simp add: str_eval)
  from strip_it_cleanup [of "str ''A, B, , ''"] h strip_it_cleanup [of "str ''A, B''"] n
  show ?thesis
    by blast
qed

text \<open>
  Claim C4 as stated says that only the end of the string is stripped and the rest is
  left intact. The joined cells \<open>["", "X", ""]\<close> give \<open>, X, \<close>, whose leading comma
  is removed as well: the result \<open> X\<close> is not an initial part of the input.
\<close>

theorem strip_it_not_end_only_counterexample:
  "strip_it (str '', X, '') = str '' X'' \<and>
   \<not> prefix (strip_it (str '', X, '')) (str '', X, '')"
  by (simp add: strip_it.simps str_eval)

text \<open>
  Claim C10. The loop of the cleanup terminates on every input: an iteration that runs
  leaves a strictly shorter string, the loop defined without any termination assumption
  returns the value of \<open>strip_it\<close>, and the body runs at most as many times as the input
  is long.
\<close>

theorem strip_it_terminates:
  "(endswith (py_strip inp) [comma] \<longrightarrow>
      length (strip_chars [comma] (py_strip inp)) < length inp) \<and>
   strip_it_while inp = Some (strip_it inp) \<and>
   strip_it_iterations inp \<le> length inp"
  by (simp add: strip_it_step_shorter strip_it_while_eq strip_it_iterations_le)

theorem strip_it_terminates_witness:
  "endswith (py_strip (str ''X, , '')) [comma] \<and>
   length (strip_chars [comma] (py_strip (str ''X, , ''))) < length (str ''X, , '') \<and>
   strip_it_while (str ''X, , '') = Some (str ''X'') \<and>
   strip_it_iterations (str ''X, , '') = 2"
proof -
  have a: "endswith (py_strip (str ''X, , '')) [comma]"
    by (simp add: str_eval)
  have b: "strip_it (str ''X, , '') = str ''X''"
    by (simp add: strip_it.simps str_eval)
  have c: "strip_it_iterations (str ''X, , '') = 2"
    by (simp add: strip_it_iterations.simps str_eval)
  from strip_it_terminates [of "str ''X, , ''"] a b c show ?thesis
    by simp
qed

section \<open>UTF-8 and the sanitising of text\<close>

text \<open>
  \<^verbatim>\<open>s.encode("utf-8", "ignore").decode("utf-8")\<close>: the encoder leaves out what has
  no UTF-8 form (the surrogates), the decoder is the strict one. Bytes are numbers
  below 256.

  The exceptions the program can meet are subclasses of \<^verbatim>\<open>Exception\<close>:
  \<open>ConnectionError\<close> and \<open>HTTPError\<close> are the two classes of the HTTP library, with
  their subclasses, that the retry policy names; \<open>IntegrityError\<close> is the database's;
  \<open>UnicodeEncodeError\<close> and \<open>UnicodeDecodeError\<close> are the codec's;
  \<open>RetryError\<close> is the retry library's; \<open>OtherException\<close> is any other, with its
  message.
\<close>

datatype exc =
    ConnectionError
  | HTTPError
  | IntegrityError
  | UnicodeEncodeError
  | UnicodeDecodeError
  | RetryError
  | OtherException pystr

definition is_surrogate :: "nat \<Rightarrow> bool" where
  "is_surrogate c \<longleftrightarrow> 55296 \<le> c \<and> c \<le> 57343"

definition encodable :: "nat \<Rightarrow> bool" where
  \<comment> \<open>a code point (at most U+10FFFF) that is not a surrogate\<close>
  "encodable c \<longleftrightarrow> c < 1114112 \<and> \<not> is_surrogate c"

definition utf8_encode_char :: "nat \<Rightarrow> nat list" where
  "utf8_encode_char c =
     (if c < 128 then [c]
      else if c < 2048 then [192 + c div 64, 128 + c mod 64]
      else if c < 65536 then [224 + c div 4096, 128 + c div 64 mod 64, 128 + c mod 64]
      else [240 + c div 262144, 128 + c div 4096 mod 64, 128 + c div 64 mod 64, 128 + c mod 64])"

fun utf8_encode_ignore :: "pystr \<Rightarrow> nat list" where
  "utf8_encode_ignore [] = []"
| "utf8_encode_ignore (c # cs) =
     (if encodable c then utf8_encode_char c @ utf8_encode_ignore cs
      else utf8_encode_ignore cs)"

text \<open>
  \<^verbatim>\<open>s.encode("utf-8")\<close>, the strict encoder: it raises at the first code point
  without a UTF-8 form.
\<close>

fun utf8_encode :: "pystr \<Rightarrow> exc + nat list" where
  "utf8_encode [] = Inr []"
| "utf8_encode (c # cs) =
     (if encodable c
      then (case utf8_encode cs of Inl e \<Rightarrow> Inl e | Inr bs \<Rightarrow> Inr (utf8_encode_char c @ bs))
      else Inl UnicodeEncodeError)"

definition continuation :: "nat \<Rightarrow> bool" where
  "continuation b \<longleftrightarrow> 128 \<le> b \<and> b < 192"

definition decoded :: "nat \<Rightarrow> exc + pystr \<Rightarrow> exc + pystr" where
  "decoded c r = (case r of Inl e \<Rightarrow> Inl e | Inr cs \<Rightarrow> Inr (c # cs))"

fun utf8_decode :: "nat list \<Rightarrow> exc + pystr" where
  "utf8_decode [] = Inr []"
| "utf8_decode (b # bs) =
     (if b < 128 then decoded b (utf8_decode bs)
      else if 194 \<le> b \<and> b < 224 then
        (case bs of
           b1 # r \<Rightarrow>
             if continuation b1
             then decoded ((b - 192) * 64 + (b1 - 128)) (utf8_decode r)
             else Inl UnicodeDecodeError
         | _ \<Rightarrow> Inl UnicodeDecodeError)
      else if 224 \<le> b \<and> b < 240 then
        (case bs of
           b1 # b2 # r \<Rightarrow>
             (let c = (b - 224) * 4096 + (b1 - 128) * 64 + (b2 - 128)
              in if continuation b1 \<and> continuation b2 \<and> 2048 \<le> c \<and> \<not> is_surrogate c
                 then decoded c (utf8_decode r)
                 else Inl UnicodeDecodeError)
         | _ \<Rightarrow> Inl UnicodeDecodeError)
      else if 240 \<le> b \<and> b < 245 then
        (case bs of
           b1 # b2 # b3 # r \<Rightarrow>
             (let c = (b - 240) * 262144 + (b1 - 128) * 4096 + (b2 - 128) * 64 + (b3 - 128)
              in if continuation b1 \<and> continuation b2 \<and> continuation b3 \<and>
                    65536 \<le> c \<and> c < 1114112
                 then decoded c (utf8_decode r)
                 else Inl UnicodeDecodeError)
         | _ \<Rightarrow> Inl UnicodeDecodeError)
      else Inl UnicodeDecodeError)"

definition sanitize :: "pystr \<Rightarrow> exc + pystr" where
  "sanitize s = utf8_decode (utf8_encode_ignore s)"

definition valid_text :: "pystr \<Rightarrow> bool" where
  \<comment> \<open>text that has a UTF-8 form\<close>
  "valid_text s \<longleftrightarrow> list_all encodable s"

lemma split3: "(c::nat) div 4096 * 4096 + c div 64 mod 64 * 64 + c mod 64 = c"
proof -
  have a: "c div 4096 = c div 64 div 64"
    by (simp add: div_mult2_eq [symmetric])
  have b: "c div 64 div 64 * 64 + c div 64 mod 64 = c div 64"
    by (rule div_mult_mod_eq)
  have d: "c div 64 * 64 + c mod 64 = c"
    by (rule div_mult_mod_eq)
  from a b d show ?thesis
    by linarith
qed

lemma split4:
  "(c::nat) div 262144 * 262144 + c div 4096 mod 64 * 4096 + c div 64 mod 64 * 64 + c mod 64 = c"
proof -
  have a: "c div 262144 = c div 4096 div 64"
    by (simp add: div_mult2_eq [symmetric])
  have b: "c div 4096 div 64 * 64 + c div 4096 mod 64 = c div 4096"
    by (rule div_mult_mod_eq)
  from a b split3 [of c] show ?thesis
    by linarith
qed

lemma lead3: "c < 65536 \<Longrightarrow> c div 4096 < (16::nat)"
  by (simp add: less_mult_imp_div_less)

lemma lead4: "c < 1114112 \<Longrightarrow> c div 262144 < (5::nat)"
  by (simp add: less_mult_imp_div_less)

lemma decode_encode_1:
  assumes "c < 128"
  shows "utf8_decode (utf8_encode_char c @ bs) = decoded c (utf8_decode bs)"
  using assms by (simp add: utf8_encode_char_def)

lemma decode_encode_2:
  assumes "128 \<le> c" "c < 2048"
  shows "utf8_decode (utf8_encode_char c @ bs) = decoded c (utf8_decode bs)"
proof -
  have a: "\<not> 192 + c div 64 < 128" by simp
  have b: "194 \<le> 192 + c div 64 \<and> 192 + c div 64 < 224" using assms by linarith
  have d: "continuation (128 + c mod 64)" by (simp add: continuation_def)
  have e: "(192 + c div 64 - 192) * 64 + (128 + c mod 64 - 128) = c" by simp
  show ?thesis
    using assms a b d e by (simp add: utf8_encode_char_def)
qed

lemma decode_encode_3:
  assumes "2048 \<le> c" "c < 65536" "\<not> is_surrogate c"
  shows "utf8_decode (utf8_encode_char c @ bs) = decoded c (utf8_decode bs)"
proof -
  define b0 where "b0 = 224 + c div 4096"
  define b1 where "b1 = 128 + c div 64 mod 64"
  define b2 where "b2 = 128 + c mod 64"
  have enc: "utf8_encode_char c = [b0, b1, b2]"
    using assms by (simp add: utf8_encode_char_def b0_def b1_def b2_def)
  have r: "\<not> b0 < 128" "\<not> (194 \<le> b0 \<and> b0 < 224)" "224 \<le> b0 \<and> b0 < 240"
    using lead3 [OF assms(2)] by (simp_all add: b0_def)
  have k: "continuation b1" "continuation b2"
    by (simp_all add: continuation_def b1_def b2_def)
  have v: "(b0 - 224) * 4096 + (b1 - 128) * 64 + (b2 - 128) = c"
    using split3 [of c] by (simp add: b0_def b1_def b2_def)
  show ?thesis
    unfolding enc using r k assms by (simp add: v Let_def)
qed

lemma decode_encode_4:
  assumes "65536 \<le> c" "c < 1114112"
  shows "utf8_decode (utf8_encode_char c @ bs) = decoded c (utf8_decode bs)"
proof -
  define b0 where "b0 = 240 + c div 262144"
  define b1 where "b1 = 128 + c div 4096 mod 64"
  define b2 where "b2 = 128 + c div 64 mod 64"
  define b3 where "b3 = 128 + c mod 64"
  have enc: "utf8_encode_char c = [b0, b1, b2, b3]"
    using assms by (simp add: utf8_encode_char_def b0_def b1_def b2_def b3_def)
  have r: "\<not> b0 < 128" "\<not> (194 \<le> b0 \<and> b0 < 224)" "\<not> (224 \<le> b0 \<and> b0 < 240)"
      "240 \<le> b0 \<and> b0 < 245"
    using lead4 [OF assms(2)] by (simp_all add: b0_def)
  have k: "continuation b1" "continuation b2" "continuation b3"
    by (simp_all add: continuation_def b1_def b2_def b3_def)
  have v: "(b0 - 240) * 262144 + (b1 - 128) * 4096 + (b2 - 128) * 64 + (b3 - 128) = c"
    using split4 [of c] by (simp add: b0_def b1_def b2_def b3_def)
  show ?thesis
    unfolding enc using r k assms by (simp add: v Let_def)
qed

lemma decode_encode_char:
  assumes "encodable c"
  shows "utf8_decode (utf8_encode_char c @ bs) = decoded c (utf8_decode bs)"
proof -
  consider "c < 128" | "128 \<le> c" "c < 2048" | "2048 \<le> c" "c < 65536" | "65536 \<le> c"
    by linarith
  then show ?thesis
  proof cases
    case 1
    then show ?thesis by (rule decode_encode_1)
  next
    case 2
    then show ?thesis by (rule decode_encode_2)
  next
    case 3
    with assms show ?thesis by (intro decode_encode_3) (simp_all add: encodable_def)
  next
    case 4
    with assms show ?thesis by (intro decode_encode_4) (simp_all add: encodable_def)
  qed
qed

lemma sanitize_eq: "sanitize s = Inr (filter encodable s)"
  unfolding sanitize_def
  by (induction s) (simp_all add: decode_encode_char decoded_def)


lemma filter_valid_text: "valid_text s \<Longrightarrow> filter encodable s = s"
  by (simp add: valid_text_def list_all_iff)

text \<open>
  What the strict decoder returns is valid text, and the strict encoder accepts valid
  text only.
\<close>

lemma decoded_Inr:
  assumes "decoded c r = Inr s"
  obtains s' where "r = Inr s'" "s = c # s'"
  using assms by (cases r) (auto simp: decoded_def)

lemma utf8_decode_valid: "utf8_decode bs = Inr s \<Longrightarrow> valid_text s"
proof (induction bs arbitrary: s rule: length_induct)
  case (1 bs)
  show ?case
  proof (cases bs)
    case Nil
    with "1.prems" show ?thesis
      by (simp add: valid_text_def)
  next
    case (Cons b r0)
    have step: "valid_text s" if "decoded c (utf8_decode r) = Inr s" "encodable c"
      "length r < length bs" for c r
    proof -
      from that(1) obtain s' where s': "utf8_decode r = Inr s'" "s = c # s'"
        by (rule decoded_Inr)
      from "1.IH" that(3) s'(1) have "valid_text s'"
        by blast
      with that(2) s'(2) show ?thesis
        by (simp add: valid_text_def)
    qed
    consider "b < 128" | "194 \<le> b" "b < 224" | "224 \<le> b" "b < 240" | "240 \<le> b" "b < 245"
      | "128 \<le> b" "b < 194" | "245 \<le> b"
      by linarith
    then show ?thesis
    proof cases
      case 1
      with "1.prems" Cons show ?thesis
        by (intro step [of b r0]) (simp_all add: encodable_def is_surrogate_def)
    next
      case 2
      with "1.prems" Cons obtain b1 r where r: "r0 = b1 # r" "continuation b1"
        and d: "decoded ((b - 192) * 64 + (b1 - 128)) (utf8_decode r) = Inr s"
        by (cases r0) (auto split: if_splits)
      have "(b - 192) * 64 + (b1 - 128) < 2048"
        using 2 r(2) unfolding continuation_def by arith
      then have "encodable ((b - 192) * 64 + (b1 - 128))"
        by (simp add: encodable_def is_surrogate_def)
      with d show ?thesis
        using Cons r(1) by (intro step [of _ r]) simp_all
    next
      case 3
      with "1.prems" Cons obtain b1 b2 r where r: "r0 = b1 # b2 # r"
        "continuation b1" "continuation b2"
        and c: "\<not> is_surrogate ((b - 224) * 4096 + (b1 - 128) * 64 + (b2 - 128))"
        and d: "decoded ((b - 224) * 4096 + (b1 - 128) * 64 + (b2 - 128)) (utf8_decode r) = Inr s"
        by (cases r0; cases "tl r0") (auto simp: Let_def split: if_splits)
      have "(b - 224) * 4096 + (b1 - 128) * 64 + (b2 - 128) < 65536"
        using 3 r(2,3) unfolding continuation_def by arith
      with c have "encodable ((b - 224) * 4096 + (b1 - 128) * 64 + (b2 - 128))"
        by (simp add: encodable_def)
      with d show ?thesis
        using Cons r(1) by (intro step [of _ r]) simp_all
    next
      case 4
      with "1.prems" Cons obtain b1 b2 b3 r where r: "r0 = b1 # b2 # b3 # r"
        and c: "65536 \<le> (b - 240) * 262144 + (b1 - 128) * 4096 + (b2 - 128) * 64 + (b3 - 128)"
          "(b - 240) * 262144 + (b1 - 128) * 4096 + (b2 - 128) * 64 + (b3 - 128) < 1114112"
        and d: "decoded ((b - 240) * 262144 + (b1 - 128) * 4096 + (b2 - 128) * 64 + (b3 - 128))
          (utf8_decode r) = Inr s"
        by (cases r0; cases "tl r0"; cases "tl (tl r0)") (auto simp: Let_def split: if_splits)
      from c have "encodable ((b - 240) * 262144 + (b1 - 128) * 4096 + (b2 - 128) * 64 + (b3 - 128))"
        by (simp add: encodable_def is_surrogate_def)
      with d show ?thesis
        using Cons r(1) by (intro step [of _ r]) simp_all
    next
      case 5
      with "1.prems" Cons show ?thesis
        by simp
    next
      case 6
      with "1.prems" Cons show ?thesis
        by simp
    qed
  qed
qed


lemma utf8_encode_valid: "utf8_encode s = Inr bs \<Longrightarrow> valid_text s"
  by (induction s arbitrary: bs) (auto simp: valid_text_def split: if_splits sum.splits)

lemma utf8_encode_refuses: "\<not> valid_text s \<Longrightarrow> utf8_encode s = Inl UnicodeEncodeError"
  by (induction s) (auto simp: valid_text_def split: sum.splits)

section \<open>The store, the network and the console\<close>

text \<open>
  The table \<^verbatim>\<open>pages\<close> of \<^verbatim>\<open>init_db\<close>: an autoincremented key, a \<^verbatim>\<open>url\<close> column
  declared \<^verbatim>\<open>UNIQUE\<close>, and three text columns. The table is the list of its rows in rowid
  order, which is the order a scan without \<^verbatim>\<open>ORDER BY\<close> returns. The database accepts
  every insert that keeps the urls distinct: a locked or broken database file is not part
  of this model. The rows are those the driver stores for text with a UTF-8 form, which is
  the text the program hands to it: the fields are sanitised and the links come decoded
  from the selector. Text with a lone surrogate the driver refuses with a
  \<open>UnicodeEncodeError\<close>, storing nothing; \<open>sql_insert\<close> does not describe that case.
\<close>

record page_row =
  row_id :: nat
  url :: pystr
  part_no :: pystr
  adaptable_for :: pystr
  orig_part_no :: pystr

datatype event =
    Skip_duplicate pystr
  | Error_fetching pystr exc
  | Error_extracting exc
  | Skip_processed pystr
  | Error_parsing pystr exc
  | Fetching_sitemaps
  | Extracting_links
  | Found_links nat
  | Completed nat
  | Exported

text \<open>
  What the program acts on: the table, the GET requests issued so far, the waits of the
  retry policy, and the lines printed. A session answers a request from the number of
  requests made before it and the URL, with the text of the response or an exception.
\<close>

record world =
  pages_table :: "page_row list"
  requests :: "pystr list"
  sleeps :: "nat list"
  console :: "event list"

type_synonym session = "nat \<Rightarrow> pystr \<Rightarrow> exc + pystr"

definition print :: "event \<Rightarrow> world \<Rightarrow> world" where
  "print e w = w\<lparr>console := console w @ [e]\<rparr>"

definition session_get :: "session \<Rightarrow> world \<Rightarrow> pystr \<Rightarrow> (exc + pystr) \<times> world" where
  \<comment> \<open>\<^verbatim>\<open>(await session.get(url)).text\<close>\<close>
  "session_get sess w u = (sess (length (requests w)) u, w\<lparr>requests := requests w @ [u]\<rparr>)"

definition init_db :: "page_row list option \<Rightarrow> page_row list" where
  \<comment> \<open>\<^verbatim>\<open>CREATE TABLE IF NOT EXISTS\<close>: \<open>None\<close> is a database without the table\<close>
  "init_db db = (case db of None \<Rightarrow> [] | Some t \<Rightarrow> t)"

definition get_existing_urls :: "world \<Rightarrow> pystr set" where
  "get_existing_urls w = set (map url (pages_table w))"

definition next_row_id :: "page_row list \<Rightarrow> nat" where
  "next_row_id t = Suc (fold max (map row_id t) 0)"

definition sql_insert :: "page_row list \<Rightarrow> pystr \<times> pystr \<times> pystr \<times> pystr \<Rightarrow> exc + page_row list" where
  \<comment> \<open>\<^verbatim>\<open>INSERT INTO pages (url, part_no, adaptable_for, orig_part_no) VALUES (?, ?, ?, ?)\<close>
      followed by the commit; the \<^verbatim>\<open>UNIQUE\<close> column refuses a second row for a url\<close>
  "sql_insert t ps =
     (case ps of (u, pn, af, on) \<Rightarrow>
        if u \<in> set (map url t) then Inl IntegrityError
        else Inr (t @ [\<lparr>row_id = next_row_id t, url = u, part_no = pn,
                          adaptable_for = af, orig_part_no = on\<rparr>]))"

section \<open>The retry policy\<close>

text \<open>
  \<^verbatim>\<open>
  @retry(
      retry=retry_if_exception_type((ConnectionError, HTTPError)),
      stop=stop_after_attempt(5),
      wait=wait_fixed(1)
  )
  async def save_to_sqlite(url, part_no, adaptable_for, orig_part_no):
  \<close>
  The decorated function is called; an exception of the two named types is retried after a
  wait of 1, unless this was attempt 5, when \<^verbatim>\<open>RetryError\<close> is raised; any other
  exception leaves at once. The first attempt has number 1.
\<close>

definition is_transient :: "exc \<Rightarrow> bool" where
  "is_transient e \<longleftrightarrow> e = ConnectionError \<or> e = HTTPError"

definition wait_fixed :: "nat \<Rightarrow> world \<Rightarrow> world" where
  "wait_fixed n w = w\<lparr>sleeps := sleeps w @ [n]\<rparr>"

function retry_call :: "(world \<Rightarrow> (exc + 'a) \<times> world) \<Rightarrow> nat \<Rightarrow> world \<Rightarrow> (exc + 'a) \<times> world" where
  "retry_call f attempt w =
     (case f w of
        (Inr v, w') \<Rightarrow> (Inr v, w')
      | (Inl e, w') \<Rightarrow>
          if is_transient e
          then (if 5 \<le> attempt then (Inl RetryError, w')
                else retry_call f (Suc attempt) (wait_fixed 1 w'))
          else (Inl e, w'))"
  by pat_completeness auto
termination
  by (relation "measure (\<lambda>(f, attempt, w). 5 - attempt)") auto

declare retry_call.simps [simp del]

section \<open>Writing a record\<close>

text \<open>
  \<^verbatim>\<open>
  async def save_to_sqlite(url, part_no, adaptable_for, orig_part_no):
      part_no = part_no.encode("utf-8", "ignore").decode("utf-8")
      adaptable_for = adaptable_for.encode("utf-8", "ignore").decode("utf-8")
      orig_part_no = orig_part_no.encode("utf-8", "ignore").decode("utf-8")
      async with aiosqlite.connect("scraped_data.db") as conn:
          try:
              await conn.execute("INSERT ...", (url, part_no, adaptable_for, orig_part_no))
              await conn.commit()
          except aiosqlite.IntegrityError:
              print(f"Skipping duplicate entry: {url}")
  \<close>
\<close>

definition insert_params ::
  "pystr \<Rightarrow> pystr \<Rightarrow> pystr \<Rightarrow> pystr \<Rightarrow> exc + (pystr \<times> pystr \<times> pystr \<times> pystr)" where
  \<comment> \<open>the tuple handed to the \<^verbatim>\<open>INSERT\<close>\<close>
  "insert_params u pn af on =
     (case sanitize pn of Inl e \<Rightarrow> Inl e | Inr pn' \<Rightarrow>
      case sanitize af of Inl e \<Rightarrow> Inl e | Inr af' \<Rightarrow>
      case sanitize on of Inl e \<Rightarrow> Inl e | Inr on' \<Rightarrow>
      Inr (u, pn', af', on'))"

definition save_to_sqlite_body ::
  "pystr \<Rightarrow> pystr \<Rightarrow> pystr \<Rightarrow> pystr \<Rightarrow> world \<Rightarrow> (exc + unit) \<times> world" where
  "save_to_sqlite_body u pn af on w =
     (case insert_params u pn af on of
        Inl e \<Rightarrow> (Inl e, w)
      | Inr ps \<Rightarrow>
          (case sql_insert (pages_table w) ps of
             Inr t \<Rightarrow> (Inr (), w\<lparr>pages_table := t\<rparr>)
           | Inl e \<Rightarrow>
               if e = IntegrityError then (Inr (), print (Skip_duplicate u) w)
               else (Inl e, w)))"

definition save_to_sqlite ::
  "pystr \<Rightarrow> pystr \<Rightarrow> pystr \<Rightarrow> pystr \<Rightarrow> world \<Rightarrow> (exc + unit) \<times> world" where
  "save_to_sqlite u pn af on w = retry_call (save_to_sqlite_body u pn af on) 1 w"

section \<open>Fetching and extracting\<close>

text \<open>
  \<^verbatim>\<open>
  async def fetch_url(session, url):
      try:
          response = await session.get(url)
          return response.text
      except Exception as e:
          print(f"Error fetching {url}: {e}")
          return None
  \<close>
\<close>

definition fetch_url :: "session \<Rightarrow> pystr \<Rightarrow> world \<Rightarrow> (exc + pystr option) \<times> world" where
  "fetch_url sess u w =
     (case session_get sess w u of
        (Inr text, w') \<Rightarrow> (Inr (Some text), w')
      | (Inl e, w') \<Rightarrow> (Inr None, print (Error_fetching u e) w'))"

text \<open>
  The selectors are the parsing library's: \<open>loc\<close> stands for
  \<^verbatim>\<open>Selector(text=page).css("loc::text").getall()\<close>, which may raise.
  \<^verbatim>\<open>
  async def extract_links(page):
      try:
          selector = Selector(text=page)
          return selector.css("loc::text").getall()
      except Exception as e:
          print(f"Error extracting links: {e}")
          return []
  \<close>
\<close>

type_synonym loc_selector = "pystr \<Rightarrow> exc + pystr list"

definition extract_links :: "loc_selector \<Rightarrow> pystr \<Rightarrow> world \<Rightarrow> (exc + pystr list) \<times> world" where
  "extract_links loc page w =
     (case loc page of
        Inr links \<Rightarrow> (Inr links, w)
      | Inl e \<Rightarrow> (Inr [], print (Error_extracting e) w))"

text \<open>
  What the two XPath queries of \<^verbatim>\<open>fetch_contents\<close> find in a page: the first text node
  after the cell \<open>Part-no.\<close>, if any, and for every row of the compatibility table the
  first text node of its first and of its second cell, if any. \<^verbatim>\<open>.get('')\<close> turns a
  missing node into the empty string.
\<close>

record extraction =
  part_no_text :: "pystr option"
  compat_rows :: "(pystr option \<times> pystr option) list"

type_synonym page_selector = "pystr \<Rightarrow> exc + extraction"

definition get_stripped :: "pystr option \<Rightarrow> pystr" where
  \<comment> \<open>\<^verbatim>\<open>.get('').strip()\<close>\<close>
  "get_stripped c = py_strip (case c of None \<Rightarrow> [] | Some t \<Rightarrow> t)"

definition page_fields :: "extraction \<Rightarrow> pystr \<times> pystr \<times> pystr" where
  "page_fields x =
     (let adaptable_for_array = map (\<lambda>item. get_stripped (fst item)) (compat_rows x);
          orig_part_no_array = map (\<lambda>item. get_stripped (snd item)) (compat_rows x)
      in (get_stripped (part_no_text x),
          strip_it (py_join (str '', '') adaptable_for_array),
          strip_it (py_join (str '', '') orig_part_no_array)))"

text \<open>
  The selector of the parsing library. \<^verbatim>\<open>Selector(text=content, encoding="utf-8")\<close>
  and \<^verbatim>\<open>Selector(text=page)\<close>, whose encoding is UTF-8 by default, encode the text
  strictly, hand the bytes to the parser, and return the text nodes that a query finds
  decoded from UTF-8. The parse and the queries are a parameter: a function from the
  bytes of the document to the bytes of the nodes found, which may raise. A text with a
  lone surrogate makes the encoding raise, inside the \<^verbatim>\<open>try\<close> of the caller.
\<close>

record page_nodes =
  part_no_node :: "nat list option"
  compat_row_nodes :: "(nat list option \<times> nat list option) list"

type_synonym html_parser = "nat list \<Rightarrow> exc + page_nodes"

type_synonym xml_parser = "nat list \<Rightarrow> exc + nat list list"

definition decode_node :: "nat list option \<Rightarrow> exc + pystr option" where
  "decode_node n =
     (case n of
        None \<Rightarrow> Inr None
      | Some bs \<Rightarrow> (case utf8_decode bs of Inl e \<Rightarrow> Inl e | Inr t \<Rightarrow> Inr (Some t)))"

fun decode_rows ::
  "(nat list option \<times> nat list option) list \<Rightarrow> exc + (pystr option \<times> pystr option) list" where
  "decode_rows [] = Inr []"
| "decode_rows (r # rs) =
     (case decode_node (fst r) of Inl e \<Rightarrow> Inl e | Inr a \<Rightarrow>
      case decode_node (snd r) of Inl e \<Rightarrow> Inl e | Inr b \<Rightarrow>
      case decode_rows rs of Inl e \<Rightarrow> Inl e | Inr rs' \<Rightarrow> Inr ((a, b) # rs'))"

fun decode_nodes :: "nat list list \<Rightarrow> exc + pystr list" where
  "decode_nodes [] = Inr []"
| "decode_nodes (n # ns) =
     (case utf8_decode n of Inl e \<Rightarrow> Inl e | Inr t \<Rightarrow>
      case decode_nodes ns of Inl e \<Rightarrow> Inl e | Inr ts \<Rightarrow> Inr (t # ts))"

definition select_page :: "html_parser \<Rightarrow> page_selector" where
  "select_page parse content =
     (case utf8_encode content of Inl e \<Rightarrow> Inl e | Inr body \<Rightarrow>
      case parse body of Inl e \<Rightarrow> Inl e | Inr nodes \<Rightarrow>
      case decode_node (part_no_node nodes) of Inl e \<Rightarrow> Inl e | Inr p \<Rightarrow>
      case decode_rows (compat_row_nodes nodes) of Inl e \<Rightarrow> Inl e | Inr rs \<Rightarrow>
      Inr \<lparr>part_no_text = p, compat_rows = rs\<rparr>)"

definition select_locs :: "xml_parser \<Rightarrow> loc_selector" where
  "select_locs parse page =
     (case utf8_encode page of Inl e \<Rightarrow> Inl e | Inr body \<Rightarrow>
      case parse body of Inl e \<Rightarrow> Inl e | Inr nodes \<Rightarrow> decode_nodes nodes)"

text \<open>
  \<^verbatim>\<open>
  async def fetch_contents(session, link, existing_urls):
      if link in existing_urls:
          print(f"Skipping already processed URL: {link}")
          return
      try:
          response = await session.get(link)
          content = response.text
          selector = Selector(text=content, encoding="utf-8")
          part_no = selector.xpath('...').get('').strip()
          adaptable_orig_rows = selector.xpath('...')
          adaptable_for_array = []
          orig_part_no_array = []
          for item in adaptable_orig_rows:
              adaptable_for_array.append(item.css('td:nth-child(1) *::text').get('').strip())
              orig_part_no_array.append(item.css('td:nth-child(2) *::text').get('').strip())
          adaptable_for = strip_it(', '.join(adaptable_for_array))
          orig_part_no = strip_it(', '.join(orig_part_no_array))
          if part_no or adaptable_for or orig_part_no:
              await save_to_sqlite(link, part_no, adaptable_for, orig_part_no)
      except Exception as e:
          print(f"Error parsing {link}: {e}")
          return None
  \<close>
\<close>

definition fetch_contents_try ::
  "session \<Rightarrow> page_selector \<Rightarrow> pystr \<Rightarrow> world \<Rightarrow> (exc + unit) \<times> world" where
  \<comment> \<open>the body of the \<^verbatim>\<open>try\<close> of \<^verbatim>\<open>fetch_contents\<close>\<close>
  "fetch_contents_try sess sel link w =
     (case session_get sess w link of
        (Inl e, w1) \<Rightarrow> (Inl e, w1)
      | (Inr content, w1) \<Rightarrow>
          (case sel content of
             Inl e \<Rightarrow> (Inl e, w1)
           | Inr x \<Rightarrow>
               (case page_fields x of (pn, af, on) \<Rightarrow>
                  if pn \<noteq> [] \<or> af \<noteq> [] \<or> on \<noteq> []
                  then save_to_sqlite link pn af on w1
                  else (Inr (), w1))))"

definition fetch_contents ::
  "session \<Rightarrow> page_selector \<Rightarrow> pystr set \<Rightarrow> pystr \<Rightarrow> world \<Rightarrow> (exc + unit) \<times> world" where
  "fetch_contents sess sel existing_urls link w =
     (if link \<in> existing_urls then (Inr (), print (Skip_processed link) w)
      else
        (case fetch_contents_try sess sel link w of
           (Inr v, w') \<Rightarrow> (Inr (), w')
         | (Inl e, w') \<Rightarrow> (Inr (), print (Error_parsing link e) w')))"

section \<open>The harvest\<close>

text \<open>
  \<^verbatim>\<open>await tqdm_asyncio.gather(*tasks)\<close> returns the results in the order of the tasks,
  whatever order they finish in, and an exception of a task leaves the call. The tasks
  are run here one after the other, in the order they were submitted.
\<close>

fun gather :: "('a \<Rightarrow> world \<Rightarrow> (exc + 'b) \<times> world) \<Rightarrow> 'a list \<Rightarrow> world \<Rightarrow> (exc + 'b list) \<times> world" where
  "gather task [] w = (Inr [], w)"
| "gather task (x # xs) w =
     (case task x w of
        (Inl e, w') \<Rightarrow> (Inl e, w')
      | (Inr v, w') \<Rightarrow>
          (case gather task xs w' of
             (Inl e, w'') \<Rightarrow> (Inl e, w'')
           | (Inr vs, w'') \<Rightarrow> (Inr (v # vs), w'')))"

text \<open>
  \<^verbatim>\<open>
  async def main():
      urls = [...]
      init_db()
      existing_urls = await get_existing_urls()
      async with requests.AsyncSession() as session:
          pages = await tqdm_asyncio.gather(*[fetch_url(session, url) for url in urls])
          sitemap_tasks = [extract_links(page) for page in pages if page]
          sitemap_links = await tqdm_asyncio.gather(*sitemap_tasks)
          extracted_sitemap_links = [link for sublist in sitemap_links for link in sublist]
          link_tasks = [fetch_contents(session, link, existing_urls)
                        for link in extracted_sitemap_links]
          await tqdm_asyncio.gather(*link_tasks)
  \<close>
\<close>

definition seed_urls :: "pystr list" where
  "seed_urls =
     [str ''https://www.industriehof.com/sitemap_xml/xml_ordner/en_sitemap_a.xml'',
      str ''https://www.industriehof.com/sitemap_xml/xml_ordner/en_sitemap_b.xml'']"

definition truthy_pages :: "pystr option list \<Rightarrow> pystr list" where
  \<comment> \<open>\<^verbatim>\<open>[... for page in pages if page]\<close>: neither \<^verbatim>\<open>None\<close> nor the empty string\<close>
  "truthy_pages pages = [page. Some page \<leftarrow> pages, page \<noteq> []]"

definition sitemap_links ::
  "session \<Rightarrow> loc_selector \<Rightarrow> pystr list \<Rightarrow> world \<Rightarrow> (exc + pystr list) \<times> world" where
  \<comment> \<open>the lines of \<^verbatim>\<open>main\<close> from the fetch of the sitemaps to
      \<^verbatim>\<open>extracted_sitemap_links\<close>\<close>
  "sitemap_links sess loc urls w =
     (case gather (fetch_url sess) urls (print Fetching_sitemaps w) of
        (Inl e, w1) \<Rightarrow> (Inl e, w1)
      | (Inr pages, w1) \<Rightarrow>
          (case gather (extract_links loc) (truthy_pages pages) (print Extracting_links w1) of
             (Inl e, w2) \<Rightarrow> (Inl e, w2)
           | (Inr links, w2) \<Rightarrow> (Inr (concat links), w2)))"

definition main ::
  "session \<Rightarrow> loc_selector \<Rightarrow> page_selector \<Rightarrow> page_row list option \<Rightarrow> (exc + unit) \<times> world" where
  "main sess loc sel db =
     (let w0 = \<lparr>pages_table = init_db db, requests = [], sleeps = [], console = []\<rparr>;
          existing_urls = get_existing_urls w0
      in case sitemap_links sess loc seed_urls w0 of
           (Inl e, w2) \<Rightarrow> (Inl e, w2)
         | (Inr extracted_sitemap_links, w2) \<Rightarrow>
             (case gather (fetch_contents sess sel existing_urls) extracted_sitemap_links
                     (print (Found_links (length extracted_sitemap_links)) w2) of
                (Inl e, w3) \<Rightarrow> (Inl e, w3)
              | (Inr done, w3) \<Rightarrow>
                  (Inr (), print (Completed (length extracted_sitemap_links)) w3)))"

section \<open>The export\<close>

text \<open>
  \<^verbatim>\<open>csv.writer(file)\<close> with the default dialect: fields separated by a comma, a field
  that holds a comma, a double quote, a carriage return or a line feed is put between
  double quotes with its double quotes doubled, and a record ends with CR LF. A record
  made of one empty field is written as a pair of double quotes.
\<close>

definition csv_special :: "nat \<Rightarrow> bool" where
  "csv_special c \<longleftrightarrow> c = 44 \<or> c = 34 \<or> c = 13 \<or> c = 10"

definition csv_field :: "pystr \<Rightarrow> pystr" where
  "csv_field f =
     (if list_ex csv_special f
      then [34] @ concat (map (\<lambda>c. if c = 34 then [34, 34] else [c]) f) @ [34]
      else f)"

definition csv_record :: "pystr list \<Rightarrow> pystr" where
  "csv_record fs =
     (if fs = [[]] then [34, 34, 13, 10]
      else py_join [44] (map csv_field fs) @ [13, 10])"

text \<open>
  \<^verbatim>\<open>
  def export_to_csv():
      cursor.execute("SELECT url, part_no, adaptable_for, orig_part_no FROM pages")
      rows = cursor.fetchall()
      with open("scraped_data.csv", mode="w", newline="", encoding="utf-8") as file:
          writer = csv.writer(file)
          writer.writerow(["url", "part_no", "adaptable_for", "orig_part_no"])
          writer.writerows(rows)
  \<close>
\<close>

definition writerow :: "pystr list \<Rightarrow> pystr \<Rightarrow> pystr" where
  "writerow fs file = file @ csv_record fs"

definition writerows :: "pystr list list \<Rightarrow> pystr \<Rightarrow> pystr" where
  "writerows rows file = fold writerow rows file"

definition select_all :: "page_row list \<Rightarrow> pystr list list" where
  \<comment> \<open>\<^verbatim>\<open>SELECT url, part_no, adaptable_for, orig_part_no FROM pages\<close>\<close>
  "select_all t = map (\<lambda>r. [url r, part_no r, adaptable_for r, orig_part_no r]) t"

definition csv_header :: "pystr list" where
  "csv_header = [str ''url'', str ''part_no'', str ''adaptable_for'', str ''orig_part_no'']"

definition export_to_csv :: "page_row list \<Rightarrow> pystr" where
  \<comment> \<open>the text of \<^verbatim>\<open>scraped_data.csv\<close>, opened for writing and so empty at first\<close>
  "export_to_csv t = writerows (select_all t) (writerow csv_header [])"

definition run ::
  "session \<Rightarrow> loc_selector \<Rightarrow> page_selector \<Rightarrow> page_row list option \<Rightarrow>
   (exc + pystr) \<times> world" where
  \<comment> \<open>\<^verbatim>\<open>asyncio.run(main()); export_to_csv()\<close>\<close>
  "run sess loc sel db =
     (case main sess loc sel db of
        (Inl e, w) \<Rightarrow> (Inl e, w)
      | (Inr u, w) \<Rightarrow> (Inr (export_to_csv (pages_table w)), print Exported w))"

section \<open>Properties of the store and of the per-link task\<close>

text \<open>
  Names for what the statements below speak of: the row that a successful insert appends,
  the fields extracted for a link when its fetch and its parse succeed in a given world,
  a row with at least one non-empty field, an extraction of valid text, and the world
  before anything has happened.
\<close>

definition stored_row :: "page_row list \<Rightarrow> pystr \<Rightarrow> pystr \<Rightarrow> pystr \<Rightarrow> pystr \<Rightarrow> page_row" where
  "stored_row t u pn af on =
     \<lparr>row_id = next_row_id t, url = u, part_no = filter encodable pn,
      adaptable_for = filter encodable af, orig_part_no = filter encodable on\<rparr>"

definition extracted :: "session \<Rightarrow> page_selector \<Rightarrow> pystr \<Rightarrow> world \<Rightarrow> (pystr \<times> pystr \<times> pystr) option" where
  "extracted sess sel link w =
     (case sess (length (requests w)) link of
        Inl e \<Rightarrow> None
      | Inr content \<Rightarrow> (case sel content of Inl e \<Rightarrow> None | Inr x \<Rightarrow> Some (page_fields x)))"

definition has_field :: "page_row \<Rightarrow> bool" where
  "has_field r \<longleftrightarrow> part_no r \<noteq> [] \<or> adaptable_for r \<noteq> [] \<or> orig_part_no r \<noteq> []"

definition valid_extraction :: "(pystr \<times> pystr \<times> pystr) option \<Rightarrow> bool" where
  "valid_extraction x =
     (case x of None \<Rightarrow> True | Some (pn, af, on) \<Rightarrow> valid_text pn \<and> valid_text af \<and> valid_text on)"

definition empty_world :: world where
  "empty_world = \<lparr>pages_table = [], requests = [], sleeps = [], console = []\<rparr>"

lemma insert_params_eq:
  "insert_params u pn af on = Inr (u, filter encodable pn, filter encodable af, filter encodable on)"
  by (simp add: insert_params_def sanitize_eq)

lemma save_to_sqlite_body_eq:
  "save_to_sqlite_body u pn af on w =
     (Inr (),
      if u \<in> set (map url (pages_table w)) then print (Skip_duplicate u) w
      else w\<lparr>pages_table := pages_table w @ [stored_row (pages_table w) u pn af on]\<rparr>)"
  by (simp add: save_to_sqlite_body_def insert_params_eq sql_insert_def stored_row_def)

lemma retry_call_returns:
  assumes "f w = (Inr v, w')"
  shows "retry_call f attempt w = (Inr v, w')"
  using assms by (subst retry_call.simps) simp

lemma retry_call_other:
  assumes "f w = (Inl e, w')" "\<not> is_transient e"
  shows "retry_call f attempt w = (Inl e, w')"
  using assms by (subst retry_call.simps) simp

lemma save_to_sqlite_eq:
  "save_to_sqlite u pn af on w =
     (Inr (),
      if u \<in> set (map url (pages_table w)) then print (Skip_duplicate u) w
      else w\<lparr>pages_table := pages_table w @ [stored_row (pages_table w) u pn af on]\<rparr>)"
  unfolding save_to_sqlite_def
  by (rule retry_call_returns) (rule save_to_sqlite_body_eq)

lemma print_fields [simp]:
  "pages_table (print e w) = pages_table w"
  "requests (print e w) = requests w"
  "sleeps (print e w) = sleeps w"
  "console (print e w) = console w @ [e]"
  by (simp_all add: print_def)

lemma stored_row_url [simp]: "url (stored_row t u pn af on) = u"
  by (simp add: stored_row_def)

lemma save_keeps_distinct:
  assumes "distinct (map url (pages_table w))"
  shows "distinct (map url (pages_table (snd (save_to_sqlite u pn af on w))))"
  using assms by (simp add: save_to_sqlite_eq)

lemma one_row_of_distinct:
  assumes "distinct (map url t)" "u \<in> set (map url t)"
  shows "length (filter (\<lambda>r. url r = u) t) = 1"
  using assms
proof (induction t)
  case Nil
  then show ?case by simp
next
  case (Cons r t)
  show ?case
  proof (cases "url r = u")
    case True
    with Cons.prems have "u \<notin> url ` set t" by auto
    then have "filter (\<lambda>r. url r = u) t = []"
      by (auto simp: filter_empty_conv)
    with True show ?thesis by simp
  next
    case False
    with Cons show ?thesis by auto
  qed
qed

lemma save_url_present:
  "u \<in> set (map url (pages_table (snd (save_to_sqlite u pn af on w))))"
  by (simp add: save_to_sqlite_eq)

lemma session_get_eq:
  "session_get sess w u = (sess (length (requests w)) u, w\<lparr>requests := requests w @ [u]\<rparr>)"
  by (simp add: session_get_def)

lemma fetch_contents_try_failed:
  assumes "extracted sess sel link w = None"
  shows "\<exists>e. fetch_contents_try sess sel link w = (Inl e, w\<lparr>requests := requests w @ [link]\<rparr>)"
  using assms
  by (auto simp: extracted_def fetch_contents_try_def session_get_def split: sum.splits)

lemma fetch_contents_try_empty:
  assumes "extracted sess sel link w = Some ([], [], [])"
  shows "fetch_contents_try sess sel link w = (Inr (), w\<lparr>requests := requests w @ [link]\<rparr>)"
  using assms
  by (auto simp: extracted_def fetch_contents_try_def session_get_def split: sum.splits)

lemma fetch_contents_try_saved:
  assumes "extracted sess sel link w = Some (pn, af, on)" "pn \<noteq> [] \<or> af \<noteq> [] \<or> on \<noteq> []"
  shows "fetch_contents_try sess sel link w =
     save_to_sqlite link pn af on (w\<lparr>requests := requests w @ [link]\<rparr>)"
  using assms
  by (auto simp: extracted_def fetch_contents_try_def session_get_def split: sum.splits)

lemma fetch_contents_skip:
  assumes "link \<in> existing"
  shows "fetch_contents sess sel existing link w = (Inr (), print (Skip_processed link) w)"
  using assms by (simp add: fetch_contents_def)

lemma fetch_contents_failed:
  assumes "link \<notin> existing" "extracted sess sel link w = None"
  shows "\<exists>e. fetch_contents sess sel existing link w =
     (Inr (), print (Error_parsing link e) (w\<lparr>requests := requests w @ [link]\<rparr>))"
  using fetch_contents_try_failed [OF assms(2)] assms(1)
  by (auto simp: fetch_contents_def)

lemma fetch_contents_empty:
  assumes "link \<notin> existing" "extracted sess sel link w = Some ([], [], [])"
  shows "fetch_contents sess sel existing link w = (Inr (), w\<lparr>requests := requests w @ [link]\<rparr>)"
  using fetch_contents_try_empty [OF assms(2)] assms(1)
  by (simp add: fetch_contents_def)

lemma fetch_contents_saved:
  assumes "link \<notin> existing" "extracted sess sel link w = Some (pn, af, on)"
    "pn \<noteq> [] \<or> af \<noteq> [] \<or> on \<noteq> []"
  shows "fetch_contents sess sel existing link w =
     save_to_sqlite link pn af on (w\<lparr>requests := requests w @ [link]\<rparr>)"
  using fetch_contents_try_saved [OF assms(2,3)] assms(1)
  by (simp add: fetch_contents_def save_to_sqlite_eq)

lemma fetch_contents_cases:
  obtains
    (skip) "link \<in> existing"
      "fetch_contents sess sel existing link w = (Inr (), print (Skip_processed link) w)"
  | (failed) e where "link \<notin> existing" "extracted sess sel link w = None"
      "fetch_contents sess sel existing link w =
         (Inr (), print (Error_parsing link e) (w\<lparr>requests := requests w @ [link]\<rparr>))"
  | (empty) "link \<notin> existing" "extracted sess sel link w = Some ([], [], [])"
      "fetch_contents sess sel existing link w = (Inr (), w\<lparr>requests := requests w @ [link]\<rparr>)"
  | (saved) pn af on where "link \<notin> existing" "extracted sess sel link w = Some (pn, af, on)"
      "pn \<noteq> [] \<or> af \<noteq> [] \<or> on \<noteq> []"
      "fetch_contents sess sel existing link w =
         save_to_sqlite link pn af on (w\<lparr>requests := requests w @ [link]\<rparr>)"
proof (cases "link \<in> existing")
  case True
  then show ?thesis using skip fetch_contents_skip by blast
next
  case False
  show ?thesis
  proof (cases "extracted sess sel link w")
    case None
    with False fetch_contents_failed [OF False None] failed show ?thesis by blast
  next
    case (Some t)
    obtain pn af on where t: "t = (pn, af, on)" by (cases t) auto
    show ?thesis
    proof (cases "pn = [] \<and> af = [] \<and> on = []")
      case True
      with Some t False fetch_contents_empty empty show ?thesis by blast
    next
      case False
      then have "pn \<noteq> [] \<or> af \<noteq> [] \<or> on \<noteq> []" by blast
      with Some t \<open>link \<notin> existing\<close> fetch_contents_saved saved show ?thesis by blast
    qed
  qed
qed

lemma fetch_contents_result: "fst (fetch_contents sess sel existing link w) = Inr ()"
  by (cases rule: fetch_contents_cases [of link existing sess sel w])
    (simp_all add: save_to_sqlite_eq)

lemma fetch_contents_requests:
  "requests (snd (fetch_contents sess sel existing link w)) =
     (if link \<in> existing then requests w else requests w @ [link])"
  by (cases rule: fetch_contents_cases [of link existing sess sel w])
    (simp_all add: save_to_sqlite_eq)

lemma fetch_contents_table_changed:
  assumes "pages_table (snd (fetch_contents sess sel existing link w)) \<noteq> pages_table w"
  shows "link \<notin> existing \<and>
    (\<exists>pn af on. extracted sess sel link w = Some (pn, af, on) \<and> (pn \<noteq> [] \<or> af \<noteq> [] \<or> on \<noteq> []))"
  using assms
  by (cases rule: fetch_contents_cases [of link existing sess sel w]) auto

lemma fetch_contents_table:
  "pages_table (snd (fetch_contents sess sel existing link w)) = pages_table w \<or>
   (\<exists>pn af on. extracted sess sel link w = Some (pn, af, on) \<and>
      (pn \<noteq> [] \<or> af \<noteq> [] \<or> on \<noteq> []) \<and> link \<notin> existing \<and>
      link \<notin> set (map url (pages_table w)) \<and>
      pages_table (snd (fetch_contents sess sel existing link w)) =
        pages_table w @ [stored_row (pages_table w) link pn af on])"
proof (cases rule: fetch_contents_cases [of link existing sess sel w])
  case (saved pn af on)
  then show ?thesis
    by (cases "link \<in> set (map url (pages_table w))") (auto simp: save_to_sqlite_eq)
qed simp_all

lemma has_field_stored_row:
  assumes "valid_text pn" "valid_text af" "valid_text on" "pn \<noteq> [] \<or> af \<noteq> [] \<or> on \<noteq> []"
  shows "has_field (stored_row t u pn af on)"
  using assms by (auto simp: has_field_def stored_row_def filter_valid_text)

lemma fetch_contents_keeps_has_field:
  assumes "\<forall>r\<in>set (pages_table w). has_field r" "valid_extraction (extracted sess sel link w)"
  shows "\<forall>r\<in>set (pages_table (snd (fetch_contents sess sel existing link w))). has_field r"
  using fetch_contents_table [of sess sel existing link w] assms
  by (auto simp: valid_extraction_def has_field_stored_row)

lemma fetch_contents_urls_mono:
  "set (map url (pages_table w)) \<subseteq>
     set (map url (pages_table (snd (fetch_contents sess sel existing link w))))"
  using fetch_contents_table [of sess sel existing link w] by auto

lemma fetch_contents_stored:
  assumes "link \<notin> existing" "extracted sess sel link w = Some (pn, af, on)"
    "pn \<noteq> [] \<or> af \<noteq> [] \<or> on \<noteq> []"
  shows "link \<in> set (map url (pages_table (snd (fetch_contents sess sel existing link w))))"
    and "link \<notin> set (map url (pages_table w)) \<Longrightarrow>
      pages_table (snd (fetch_contents sess sel existing link w)) =
        pages_table w @ [stored_row (pages_table w) link pn af on]"
  using fetch_contents_saved [OF assms] by (auto simp: save_to_sqlite_eq)

lemma gather_fetch_contents_Cons:
  "gather (fetch_contents sess sel existing) (l # ls) w =
     (case gather (fetch_contents sess sel existing) ls
             (snd (fetch_contents sess sel existing l w)) of
        (Inl e, w'') \<Rightarrow> (Inl e, w'')
      | (Inr vs, w'') \<Rightarrow> (Inr (() # vs), w''))"
  using fetch_contents_result [of sess sel existing l w]
  by (cases "fetch_contents sess sel existing l w") (auto split: sum.splits)

lemma gather_fetch_contents_result:
  "fst (gather (fetch_contents sess sel existing) links w) = Inr (replicate (length links) ())"
proof (induction links arbitrary: w)
  case Nil
  then show ?case by simp
next
  case (Cons l ls)
  from Cons [of "snd (fetch_contents sess sel existing l w)"] show ?case
    unfolding gather_fetch_contents_Cons
    by (cases "gather (fetch_contents sess sel existing) ls
        (snd (fetch_contents sess sel existing l w))") (auto split: sum.splits)
qed

lemma gather_fetch_contents_snd_Cons:
  "snd (gather (fetch_contents sess sel existing) (l # ls) w) =
     snd (gather (fetch_contents sess sel existing) ls (snd (fetch_contents sess sel existing l w)))"
  unfolding gather_fetch_contents_Cons
  by (cases "gather (fetch_contents sess sel existing) ls
        (snd (fetch_contents sess sel existing l w))") (auto split: sum.splits)

lemma gather_fetch_contents_append:
  "snd (gather (fetch_contents sess sel existing) (xs @ ys) w) =
     snd (gather (fetch_contents sess sel existing) ys
            (snd (gather (fetch_contents sess sel existing) xs w)))"
  by (induction xs arbitrary: w)
    (simp_all add: gather_fetch_contents_snd_Cons del: gather.simps(2))

lemma gather_fetch_contents_requests:
  "requests (snd (gather (fetch_contents sess sel existing) links w)) =
     requests w @ filter (\<lambda>l. l \<notin> existing) links"
  by (induction links arbitrary: w)
    (simp_all add: gather_fetch_contents_snd_Cons fetch_contents_requests del: gather.simps(2))

lemma gather_fetch_contents_urls_mono:
  "set (map url (pages_table w)) \<subseteq>
     set (map url (pages_table (snd (gather (fetch_contents sess sel existing) links w))))"
proof (induction links arbitrary: w)
  case Nil
  then show ?case by simp
next
  case (Cons l ls)
  from fetch_contents_urls_mono [of w sess sel existing l]
    Cons [of "snd (fetch_contents sess sel existing l w)"]
  show ?case
    unfolding gather_fetch_contents_snd_Cons by blast
qed

lemma gather_fetch_contents_keeps_has_field:
  assumes "\<forall>r\<in>set (pages_table w). has_field r"
    and "\<forall>xs l ys. links = xs @ l # ys \<longrightarrow>
      valid_extraction (extracted sess sel l (snd (gather (fetch_contents sess sel existing) xs w)))"
  shows "\<forall>r\<in>set (pages_table (snd (gather (fetch_contents sess sel existing) links w))). has_field r"
  using assms
proof (induction links arbitrary: w)
  case Nil
  then show ?case by simp
next
  case (Cons l ls)
  let ?w1 = "snd (fetch_contents sess sel existing l w)"
  have v: "valid_extraction (extracted sess sel l w)"
    using Cons.prems(2) [rule_format, of "[]" l ls] by simp
  have 1: "\<forall>r\<in>set (pages_table ?w1). has_field r"
    using Cons.prems(1) v by (rule fetch_contents_keeps_has_field)
  have 2: "\<forall>xs l' ys. ls = xs @ l' # ys \<longrightarrow>
      valid_extraction (extracted sess sel l' (snd (gather (fetch_contents sess sel existing) xs ?w1)))"
  proof (intro allI impI)
    fix xs l' ys
    assume "ls = xs @ l' # ys"
    then have "l # ls = (l # xs) @ l' # ys" by simp
    from Cons.prems(2) [rule_format, OF this] show
      "valid_extraction (extracted sess sel l' (snd (gather (fetch_contents sess sel existing) xs ?w1)))"
      by (simp add: gather_fetch_contents_snd_Cons del: gather.simps(2))
  qed
  from Cons.IH [OF 1 2] show ?case
    by (simp add: gather_fetch_contents_snd_Cons del: gather.simps(2))
qed

lemma gather_fetch_contents_stored:
  assumes "links = xs @ l # ys" "l \<notin> existing"
    "extracted sess sel l (snd (gather (fetch_contents sess sel existing) xs w)) = Some (pn, af, on)"
    "pn \<noteq> [] \<or> af \<noteq> [] \<or> on \<noteq> []"
  shows "l \<in> set (map url (pages_table (snd (gather (fetch_contents sess sel existing) links w))))"
proof -
  let ?g = "gather (fetch_contents sess sel existing)"
  let ?w1 = "snd (?g xs w)"
  let ?w2 = "snd (fetch_contents sess sel existing l ?w1)"
  have "snd (?g links w) = snd (?g ys ?w2)"
    unfolding assms(1)
    by (simp add: gather_fetch_contents_append gather_fetch_contents_snd_Cons del: gather.simps(2))
  moreover have "l \<in> set (map url (pages_table ?w2))"
    using assms(2-4) by (rule fetch_contents_stored(1))
  ultimately show ?thesis
    using gather_fetch_contents_urls_mono [of ?w2 sess sel existing ys] by auto
qed

section \<open>Properties of the sitemaps and of the whole run\<close>

definition page_of :: "session \<Rightarrow> nat \<times> pystr \<Rightarrow> pystr option" where
  \<comment> \<open>what \<^verbatim>\<open>fetch_url\<close> returns for a url requested as request number \<open>n\<close>\<close>
  "page_of sess nu = (case sess (fst nu) (snd nu) of Inl e \<Rightarrow> None | Inr text \<Rightarrow> Some text)"

definition links_of :: "loc_selector \<Rightarrow> pystr \<Rightarrow> pystr list" where
  \<comment> \<open>what \<^verbatim>\<open>extract_links\<close> returns for a page\<close>
  "links_of loc page = (case loc page of Inl e \<Rightarrow> [] | Inr links \<Rightarrow> links)"

definition seed_links :: "session \<Rightarrow> loc_selector \<Rightarrow> nat \<times> pystr \<Rightarrow> pystr list" where
  \<comment> \<open>the links one seed contributes: none when its fetch fails or its page is empty\<close>
  "seed_links sess loc nu =
     (case sess (fst nu) (snd nu) of
        Inl e \<Rightarrow> []
      | Inr page \<Rightarrow> if page = [] then [] else links_of loc page)"

definition start_world :: "page_row list option \<Rightarrow> world" where
  \<comment> \<open>the world of \<^verbatim>\<open>main\<close> after \<^verbatim>\<open>init_db\<close>\<close>
  "start_world db = \<lparr>pages_table = init_db db, requests = [], sleeps = [], console = []\<rparr>"

definition main_links :: "session \<Rightarrow> loc_selector \<Rightarrow> pystr list" where
  \<comment> \<open>\<^verbatim>\<open>extracted_sitemap_links\<close> of \<^verbatim>\<open>main\<close>\<close>
  "main_links sess loc = concat (map (seed_links sess loc) (enumerate 0 seed_urls))"

lemma fetch_url_eq:
  "fetch_url sess u w =
     (Inr (page_of sess (length (requests w), u)),
      case sess (length (requests w)) u of
        Inr text \<Rightarrow> w\<lparr>requests := requests w @ [u]\<rparr>
      | Inl e \<Rightarrow> print (Error_fetching u e) (w\<lparr>requests := requests w @ [u]\<rparr>))"
  by (simp add: fetch_url_def session_get_def page_of_def split: sum.splits)

lemma fetch_url_requests: "requests (snd (fetch_url sess u w)) = requests w @ [u]"
  by (simp add: fetch_url_eq split: sum.splits)

lemma gather_fetch_url_Cons:
  "gather (fetch_url sess) (u # us) w =
     (case gather (fetch_url sess) us (snd (fetch_url sess u w)) of
        (Inl e, w'') \<Rightarrow> (Inl e, w'')
      | (Inr vs, w'') \<Rightarrow> (Inr (page_of sess (length (requests w), u) # vs), w''))"
  by (simp add: fetch_url_eq)

lemma gather_fetch_url:
  "fst (gather (fetch_url sess) urls w) =
     Inr (map (page_of sess) (enumerate (length (requests w)) urls)) \<and>
   requests (snd (gather (fetch_url sess) urls w)) = requests w @ urls"
proof (induction urls arbitrary: w)
  case Nil
  then show ?case by simp
next
  case (Cons u us)
  from Cons [of "snd (fetch_url sess u w)"] show ?case
    unfolding gather_fetch_url_Cons
    by (cases "gather (fetch_url sess) us (snd (fetch_url sess u w))")
      (auto simp: fetch_url_requests split: sum.splits)
qed

lemma extract_links_eq:
  "extract_links loc page w =
     (Inr (links_of loc page),
      case loc page of Inr links \<Rightarrow> w | Inl e \<Rightarrow> print (Error_extracting e) w)"
  by (simp add: extract_links_def links_of_def split: sum.splits)

lemma extract_links_requests: "requests (snd (extract_links loc page w)) = requests w"
  by (simp add: extract_links_eq split: sum.splits)

lemma gather_extract_links_Cons:
  "gather (extract_links loc) (p # ps) w =
     (case gather (extract_links loc) ps (snd (extract_links loc p w)) of
        (Inl e, w'') \<Rightarrow> (Inl e, w'')
      | (Inr vs, w'') \<Rightarrow> (Inr (links_of loc p # vs), w''))"
  by (simp add: extract_links_eq)

lemma gather_extract_links:
  "fst (gather (extract_links loc) pages w) = Inr (map (links_of loc) pages) \<and>
   requests (snd (gather (extract_links loc) pages w)) = requests w"
proof (induction pages arbitrary: w)
  case Nil
  then show ?case by simp
next
  case (Cons p ps)
  from Cons [of "snd (extract_links loc p w)"] show ?case
    unfolding gather_extract_links_Cons
    by (cases "gather (extract_links loc) ps (snd (extract_links loc p w))")
      (auto simp: extract_links_requests split: sum.splits)
qed

lemma truthy_links:
  "concat (map (links_of loc) (truthy_pages (map (page_of sess) nus))) =
     concat (map (seed_links sess loc) nus)"
  by (induction nus)
    (simp_all add: truthy_pages_def page_of_def seed_links_def split: sum.splits)

lemma sitemap_links_eq:
  "fst (sitemap_links sess loc urls w) =
     Inr (concat (map (seed_links sess loc) (enumerate (length (requests w)) urls))) \<and>
   requests (snd (sitemap_links sess loc urls w)) = requests w @ urls"
proof -
  let ?w0 = "print Fetching_sitemaps w"
  obtain w1 where 1: "gather (fetch_url sess) urls ?w0 =
      (Inr (map (page_of sess) (enumerate (length (requests w)) urls)), w1)"
    and r1: "requests w1 = requests w @ urls"
    using gather_fetch_url [of sess urls ?w0]
    by (cases "gather (fetch_url sess) urls ?w0") auto
  let ?pages = "truthy_pages (map (page_of sess) (enumerate (length (requests w)) urls))"
  obtain w2 where 2: "gather (extract_links loc) ?pages (print Extracting_links w1) =
      (Inr (map (links_of loc) ?pages), w2)"
    and r2: "requests w2 = requests w1"
    using gather_extract_links [of loc ?pages "print Extracting_links w1"]
    by (cases "gather (extract_links loc) ?pages (print Extracting_links w1)") auto
  show ?thesis
    by (simp add: sitemap_links_def 1 2 r1 r2 truthy_links)
qed

lemma count_list_concat:
  "count_list (concat xss) x = sum_list (map (\<lambda>xs. count_list xs x) xss)"
  by (induction xss) simp_all

lemma main_returns: "fst (main sess loc sel db) = Inr ()"
proof -
  let ?w0 = "\<lparr>pages_table = init_db db, requests = [], sleeps = [], console = []\<rparr>"
  obtain links w2 where 1: "sitemap_links sess loc seed_urls ?w0 = (Inr links, w2)"
    using sitemap_links_eq [of sess loc seed_urls ?w0]
    by (cases "sitemap_links sess loc seed_urls ?w0") auto
  let ?g = "gather (fetch_contents sess sel (get_existing_urls ?w0)) links
      (print (Found_links (length links)) w2)"
  obtain w3 where 2: "?g = (Inr (replicate (length links) ()), w3)"
    using gather_fetch_contents_result
      [of sess sel "get_existing_urls ?w0" links "print (Found_links (length links)) w2"]
    by (cases ?g) auto
  show ?thesis
    by (simp add: main_def Let_def 1 2)
qed

lemma fetch_url_table: "pages_table (snd (fetch_url sess u w)) = pages_table w"
  by (simp add: fetch_url_eq split: sum.splits)

lemma extract_links_table: "pages_table (snd (extract_links loc page w)) = pages_table w"
  by (simp add: extract_links_eq split: sum.splits)

lemma gather_fetch_url_table:
  "pages_table (snd (gather (fetch_url sess) urls w)) = pages_table w"
proof (induction urls arbitrary: w)
  case Nil
  then show ?case by simp
next
  case (Cons u us)
  from Cons [of "snd (fetch_url sess u w)"] show ?case
    unfolding gather_fetch_url_Cons
    by (cases "gather (fetch_url sess) us (snd (fetch_url sess u w))")
      (auto simp: fetch_url_table split: sum.splits)
qed

lemma gather_extract_links_table:
  "pages_table (snd (gather (extract_links loc) pages w)) = pages_table w"
proof (induction pages arbitrary: w)
  case Nil
  then show ?case by simp
next
  case (Cons p ps)
  from Cons [of "snd (extract_links loc p w)"] show ?case
    unfolding gather_extract_links_Cons
    by (cases "gather (extract_links loc) ps (snd (extract_links loc p w))")
      (auto simp: extract_links_table split: sum.splits)
qed

lemma sitemap_links_table:
  "pages_table (snd (sitemap_links sess loc urls w)) = pages_table w"
proof -
  let ?w0 = "print Fetching_sitemaps w"
  obtain w1 where 1: "gather (fetch_url sess) urls ?w0 =
      (Inr (map (page_of sess) (enumerate (length (requests w)) urls)), w1)"
    and t1: "pages_table w1 = pages_table w"
    using gather_fetch_url [of sess urls ?w0] gather_fetch_url_table [of sess urls ?w0]
    by (cases "gather (fetch_url sess) urls ?w0") auto
  let ?pages = "truthy_pages (map (page_of sess) (enumerate (length (requests w)) urls))"
  obtain w2 where 2: "gather (extract_links loc) ?pages (print Extracting_links w1) =
      (Inr (map (links_of loc) ?pages), w2)"
    and t2: "pages_table w2 = pages_table w1"
    using gather_extract_links [of loc ?pages "print Extracting_links w1"]
      gather_extract_links_table [of loc ?pages "print Extracting_links w1"]
    by (cases "gather (extract_links loc) ?pages (print Extracting_links w1)") auto
  show ?thesis
    by (simp add: sitemap_links_def 1 2 t1 t2)
qed

lemma main_eq:
  "\<exists>w2. pages_table w2 = init_db db \<and> requests w2 = seed_urls \<and>
     main sess loc sel db =
       (Inr (), print (Completed (length (main_links sess loc)))
          (snd (gather (fetch_contents sess sel (set (map url (init_db db))))
                  (main_links sess loc)
                  (print (Found_links (length (main_links sess loc))) w2))))"
proof -
  let ?w0 = "start_world db"
  let ?links = "main_links sess loc"
  obtain w2 where 1: "sitemap_links sess loc seed_urls ?w0 = (Inr ?links, w2)"
    and t: "pages_table w2 = init_db db" and r: "requests w2 = seed_urls"
    using sitemap_links_eq [of sess loc seed_urls ?w0] sitemap_links_table [of sess loc seed_urls ?w0]
    by (cases "sitemap_links sess loc seed_urls ?w0") (auto simp: start_world_def main_links_def)
  let ?ex = "set (map url (init_db db))"
  let ?g = "gather (fetch_contents sess sel ?ex) ?links (print (Found_links (length ?links)) w2)"
  obtain w3 where 2: "?g = (Inr (replicate (length ?links) ()), w3)"
    using gather_fetch_contents_result
      [of sess sel ?ex ?links "print (Found_links (length ?links)) w2"]
    by (cases ?g) auto
  have "main sess loc sel db = (Inr (), print (Completed (length ?links)) (snd ?g))"
    using 1 2 by (simp add: main_def Let_def start_world_def get_existing_urls_def)
  with t r show ?thesis
    by blast
qed

lemma main_requests:
  "requests (snd (main sess loc sel db)) =
     seed_urls @ filter (\<lambda>l. l \<notin> set (map url (init_db db))) (main_links sess loc)"
proof -
  from main_eq [of db sess loc sel] obtain w2 where
    "requests w2 = seed_urls"
    "main sess loc sel db =
       (Inr (), print (Completed (length (main_links sess loc)))
          (snd (gather (fetch_contents sess sel (set (map url (init_db db))))
                  (main_links sess loc)
                  (print (Found_links (length (main_links sess loc))) w2))))"
    by blast
  then show ?thesis
    by (simp add: gather_fetch_contents_requests)
qed

lemma fetch_contents_keeps_distinct:
  assumes "distinct (map url (pages_table w))"
  shows "distinct (map url (pages_table (snd (fetch_contents sess sel existing link w))))"
  using fetch_contents_table [of sess sel existing link w] assms by auto

lemma gather_fetch_contents_keeps_distinct:
  assumes "distinct (map url (pages_table w))"
  shows "distinct (map url
    (pages_table (snd (gather (fetch_contents sess sel existing) links w))))"
  using assms
proof (induction links arbitrary: w)
  case Nil
  then show ?case by simp
next
  case (Cons l ls)
  from Cons.IH [OF fetch_contents_keeps_distinct [OF Cons.prems]] show ?case
    by (simp add: gather_fetch_contents_snd_Cons del: gather.simps(2))
qed

lemma main_keeps_distinct:
  assumes "distinct (map url (init_db db))"
  shows "distinct (map url (pages_table (snd (main sess loc sel db))))"
proof -
  from main_eq [of db sess loc sel] obtain w2 where
    t: "pages_table w2 = init_db db" and
    m: "main sess loc sel db =
       (Inr (), print (Completed (length (main_links sess loc)))
          (snd (gather (fetch_contents sess sel (set (map url (init_db db))))
                  (main_links sess loc)
                  (print (Found_links (length (main_links sess loc))) w2))))"
    by blast
  have "distinct (map url (pages_table (print (Found_links (length (main_links sess loc))) w2)))"
    using assms t by simp
  from gather_fetch_contents_keeps_distinct [OF this] show ?thesis
    unfolding m by simp
qed

lemma main_urls_mono:
  "set (map url (init_db db)) \<subseteq> set (map url (pages_table (snd (main sess loc sel db))))"
proof -
  from main_eq [of db sess loc sel] obtain w2 where
    t: "pages_table w2 = init_db db" and
    m: "main sess loc sel db =
       (Inr (), print (Completed (length (main_links sess loc)))
          (snd (gather (fetch_contents sess sel (set (map url (init_db db))))
                  (main_links sess loc)
                  (print (Found_links (length (main_links sess loc))) w2))))"
    by blast
  from gather_fetch_contents_urls_mono
    [of "print (Found_links (length (main_links sess loc))) w2" sess sel
      "set (map url (init_db db))" "main_links sess loc"] t
  show ?thesis
    unfolding m by simp
qed

section \<open>The text that the selector returns\<close>

text \<open>
  The fields and the links that come out of the selector are valid text: stripping,
  joining and the comma cleanup keep them so, sanitising leaves them as they are, and
  every row that a run writes holds valid text in its four string columns.
\<close>

definition valid_opt :: "pystr option \<Rightarrow> bool" where
  "valid_opt c = (case c of None \<Rightarrow> True | Some t \<Rightarrow> valid_text t)"

definition valid_nodes :: "extraction \<Rightarrow> bool" where
  "valid_nodes x \<longleftrightarrow>
     valid_opt (part_no_text x) \<and>
     list_all (\<lambda>item. valid_opt (fst item) \<and> valid_opt (snd item)) (compat_rows x)"


lemma valid_text_subset: "set a \<subseteq> set b \<Longrightarrow> valid_text b \<Longrightarrow> valid_text a"
  by (auto simp: valid_text_def list_all_iff)

lemma set_strip_with: "set (strip_with p s) \<subseteq> set s"
  unfolding strip_with_def by (auto dest!: set_dropWhileD)

lemma set_strip_it: "set (strip_it s) \<subseteq> set s"
proof -
  from strip_it_removes_only_ws_commas [of s] obtain pre suf where
    "s = pre @ strip_it s @ suf"
    by blast
  then have "set s = set pre \<union> set (strip_it s) \<union> set suf"
    by (metis set_append sup_assoc)
  then show ?thesis
    by blast
qed

lemma valid_text_py_join:
  assumes "valid_text sep" "\<forall>x\<in>set xs. valid_text x"
  shows "valid_text (py_join sep xs)"
  using assms
  by (induction sep xs rule: py_join.induct) (simp_all add: valid_text_def)

lemma valid_text_get_stripped:
  assumes "valid_opt c"
  shows "valid_text (get_stripped c)"
proof -
  have "valid_text (case c of None \<Rightarrow> [] | Some t \<Rightarrow> t)"
    using assms by (simp add: valid_opt_def valid_text_def split: option.splits)
  with set_strip_with show ?thesis
    unfolding get_stripped_def py_strip_def by (rule valid_text_subset)
qed

lemma valid_text_comma_space: "valid_text (str '', '')"
  by (simp add: valid_text_def str_def encodable_def is_surrogate_def)

lemma page_fields_valid:
  assumes "valid_nodes x" "page_fields x = (pn, af, on)"
  shows "valid_text pn \<and> valid_text af \<and> valid_text on"
proof -
  from assms(1) have p: "valid_opt (part_no_text x)"
    and r: "\<forall>item\<in>set (compat_rows x). valid_opt (fst item) \<and> valid_opt (snd item)"
    by (simp_all add: valid_nodes_def list_all_iff)
  have 1: "valid_text (py_join (str '', '') (map (\<lambda>item. get_stripped (fst item)) (compat_rows x)))"
    using r by (intro valid_text_py_join valid_text_comma_space) (auto intro: valid_text_get_stripped)
  have 2: "valid_text (py_join (str '', '') (map (\<lambda>item. get_stripped (snd item)) (compat_rows x)))"
    using r by (intro valid_text_py_join valid_text_comma_space) (auto intro: valid_text_get_stripped)
  from assms(2) have "pn = get_stripped (part_no_text x)"
    "af = strip_it (py_join (str '', '') (map (\<lambda>item. get_stripped (fst item)) (compat_rows x)))"
    "on = strip_it (py_join (str '', '') (map (\<lambda>item. get_stripped (snd item)) (compat_rows x)))"
    by (simp_all add: page_fields_def Let_def)
  with p 1 2 show ?thesis
    by (auto intro: valid_text_get_stripped valid_text_subset [OF set_strip_it])
qed

lemma decode_node_valid: "decode_node n = Inr c \<Longrightarrow> valid_opt c"
  by (auto simp: decode_node_def valid_opt_def utf8_decode_valid split: option.splits sum.splits)

lemma decode_rows_valid:
  "decode_rows rs = Inr rs' \<Longrightarrow>
   list_all (\<lambda>item. valid_opt (fst item) \<and> valid_opt (snd item)) rs'"
proof (induction rs arbitrary: rs')
  case Nil
  then show ?case by simp
next
  case (Cons r rs)
  then show ?case
    by (auto simp: decode_node_valid split: sum.splits)
qed


lemma select_page_valid: "select_page parse content = Inr x \<Longrightarrow> valid_nodes x"
  by (auto simp: select_page_def valid_nodes_def decode_node_valid decode_rows_valid
      split: sum.splits)


lemma valid_extraction_select_page:
  "valid_extraction (extracted sess (select_page parse) link w)"
proof (cases "extracted sess (select_page parse) link w")
  case None
  then show ?thesis
    by (simp add: valid_extraction_def)
next
  case (Some t)
  obtain pn af on where t: "t = (pn, af, on)"
    by (cases t) auto
  from Some obtain content x where "select_page parse content = Inr x" "page_fields x = t"
    by (auto simp: extracted_def split: sum.splits)
  with t select_page_valid page_fields_valid have
    "valid_text pn \<and> valid_text af \<and> valid_text on"
    by blast
  with Some t show ?thesis
    by (simp add: valid_extraction_def)
qed


lemma fetch_contents_select_page_has_field:
  assumes "\<forall>r\<in>set (pages_table w). has_field r"
  shows "\<forall>r\<in>set (pages_table (snd (fetch_contents sess (select_page parse) existing link w))).
    has_field r"
  using assms valid_extraction_select_page by (rule fetch_contents_keeps_has_field)

lemma gather_select_page_has_field:
  assumes "\<forall>r\<in>set (pages_table w). has_field r"
  shows "\<forall>r\<in>set (pages_table
    (snd (gather (fetch_contents sess (select_page parse) existing) links w))). has_field r"
  using assms by (rule gather_fetch_contents_keeps_has_field) (simp add: valid_extraction_select_page)

lemma main_select_page_has_field:
  assumes "\<forall>r\<in>set (init_db db). has_field r"
  shows "\<forall>r\<in>set (pages_table (snd (main sess loc (select_page parse) db))). has_field r"
proof -
  from main_eq [of db sess loc "select_page parse"] obtain w2 where
    t: "pages_table w2 = init_db db" and
    m: "main sess loc (select_page parse) db =
       (Inr (), print (Completed (length (main_links sess loc)))
          (snd (gather (fetch_contents sess (select_page parse) (set (map url (init_db db))))
                  (main_links sess loc)
                  (print (Found_links (length (main_links sess loc))) w2))))"
    by blast
  have "\<forall>r\<in>set (pages_table (print (Found_links (length (main_links sess loc))) w2)).
      has_field r"
    using assms t by simp
  from gather_select_page_has_field [OF this] show ?thesis
    unfolding m by simp
qed







section \<open>Worlds, sites and pages for the instances\<close>

text \<open>
  Small concrete inputs on which the statements of the claims are instantiated: a table
  with one row, two pages and the parses that find them, a site that answers every
  request with the url asked for, a parser that raises on one page, a site whose first
  answer is a connection error and a sitemap with two links.
\<close>

lemmas world_eval =
  fetch_contents_def fetch_contents_try_def session_get_def page_fields_def get_stripped_def
  save_to_sqlite_eq stored_row_def next_row_id_def empty_world_def print_def
  strip_it.simps str_eval encodable_def is_surrogate_def fetch_url_def

definition one_page :: world where
  "one_page = snd (save_to_sqlite (str ''http://x/1'') (str ''P1'') (str ''A, B'') (str ''O1, O2'')
     empty_world)"

definition page_p1 :: extraction where
  "page_p1 = \<lparr>part_no_text = Some (str '' ABC-123 ''), compat_rows = []\<rparr>"

definition page_blank :: extraction where
  "page_blank = \<lparr>part_no_text = None, compat_rows = [(None, Some (str '' ''))]\<rparr>"

definition echo :: session where
  \<comment> \<open>a site whose page for a url is the url\<close>
  "echo n u = Inr u"

definition sel_bad :: page_selector where
  \<comment> \<open>a parser that raises on one page\<close>
  "sel_bad content =
     (if content = str ''http://x/bad'' then Inl (OtherException (str ''boom''))
      else Inr page_p1)"

definition first_down :: session where
  \<comment> \<open>a site that refuses the first request and then serves one sitemap\<close>
  "first_down n u = (if n = 0 then Inl ConnectionError else Inr (str ''<urlset>''))"

definition two_locs :: loc_selector where
  "two_locs page = Inr [str ''http://x/1'', str ''http://x/2'']"

lemma one_page_table:
  "pages_table one_page =
     [\<lparr>row_id = 1, url = str ''http://x/1'', part_no = str ''P1'',
       adaptable_for = str ''A, B'', orig_part_no = str ''O1, O2''\<rparr>]"
  by (simp add: one_page_def world_eval)

lemma extracted_p1:
  "extracted (\<lambda>n u. Inr (str ''<html>'')) (\<lambda>c. Inr page_p1) (str ''http://x/1'') empty_world =
     Some (str ''ABC-123'', [], [])"
  by (simp add: extracted_def page_p1_def world_eval)

lemma extracted_blank:
  "extracted (\<lambda>n u. Inr (str ''<html>'')) (\<lambda>c. Inr page_blank) (str ''http://x/1'') empty_world =
     Some ([], [], [])"
  by (simp add: extracted_def page_blank_def world_eval)

definition parse_p1 :: html_parser where
  \<comment> \<open>a parse that finds the part number and no compatibility rows\<close>
  "parse_p1 body = Inr \<lparr>part_no_node = Some (str '' ABC-123 ''), compat_row_nodes = []\<rparr>"

definition parse_blank :: html_parser where
  \<comment> \<open>a parse that finds one row with an empty and a blank cell\<close>
  "parse_blank body = Inr \<lparr>part_no_node = None, compat_row_nodes = [(None, Some (str '' ''))]\<rparr>"

definition xml_two :: xml_parser where
  "xml_two body = Inr [str ''http://x/1'', str ''http://x/2'']"

lemmas utf8_eval =
  utf8_encode_char_def encodable_def is_surrogate_def decoded_def decode_node_def
  select_page_def select_locs_def str_def

lemma select_page_p1: "select_page parse_p1 (str ''<html>'') = Inr page_p1"
  by (simp add: parse_p1_def page_p1_def utf8_eval)

lemma select_page_blank: "select_page parse_blank (str ''<html>'') = Inr page_blank"
  by (simp add: parse_blank_def page_blank_def utf8_eval)

lemma select_page_surrogate: "select_page parse_p1 [60, 55296, 62] = Inl UnicodeEncodeError"
  by (simp add: utf8_eval)

lemma select_locs_two:
  "select_locs xml_two (str ''<urlset>'') = Inr [str ''http://x/1'', str ''http://x/2'']"
  by (simp add: xml_two_def utf8_eval)

lemma extracted_select_p1:
  "extracted (\<lambda>n u. Inr (str ''<html>'')) (select_page parse_p1) (str ''http://x/1'') empty_world =
     Some (str ''ABC-123'', [], [])"
  using extracted_p1 by (simp add: extracted_def select_page_p1)

lemma extracted_select_blank:
  "extracted (\<lambda>n u. Inr (str ''<html>'')) (select_page parse_blank) (str ''http://x/1'')
     empty_world = Some ([], [], [])"
  using extracted_blank by (simp add: extracted_def select_page_blank)

section \<open>Claims about the store and the per-link task\<close>

text \<open>
  Claim C3. A table whose url values are pairwise distinct stays so under every insert,
  and after an insert, or two inserts, for a url the table holds exactly one row for it. An
  insert for a url already present leaves the table unchanged, prints the skip and returns
  to its caller without an exception. The table that \<^verbatim>\<open>init_db\<close> creates is empty,
  and a batch of per-link tasks and the whole of \<^verbatim>\<open>main\<close> keep the url values
  distinct.
\<close>

theorem url_unique:
  "(distinct (map url (pages_table w)) \<longrightarrow>
      distinct (map url (pages_table (snd (save_to_sqlite u pn af on w)))) \<and>
      length (filter (\<lambda>r. url r = u) (pages_table (snd (save_to_sqlite u pn af on w)))) = 1 \<and>
      length (filter (\<lambda>r. url r = u)
        (pages_table (snd (save_to_sqlite u pn' af' on' (snd (save_to_sqlite u pn af on w)))))) = 1) \<and>
   (u \<in> set (map url (pages_table w)) \<longrightarrow>
      save_to_sqlite u pn af on w = (Inr (), print (Skip_duplicate u) w) \<and>
      pages_table (snd (save_to_sqlite u pn af on w)) = pages_table w) \<and>
   distinct (map url (init_db None)) \<and>
   (distinct (map url (pages_table w)) \<longrightarrow>
      distinct (map url
        (pages_table (snd (gather (fetch_contents sess sel existing) links w))))) \<and>
   (distinct (map url (init_db db)) \<longrightarrow>
      distinct (map url (pages_table (snd (main sess loc sel db)))))"
proof (intro conjI impI)
  assume d: "distinct (map url (pages_table w))"
  let ?w1 = "snd (save_to_sqlite u pn af on w)"
  show d1: "distinct (map url (pages_table ?w1))"
    using d by (rule save_keeps_distinct)
  show "length (filter (\<lambda>r. url r = u) (pages_table ?w1)) = 1"
    using d1 save_url_present by (rule one_row_of_distinct)
  show "length (filter (\<lambda>r. url r = u)
      (pages_table (snd (save_to_sqlite u pn' af' on' ?w1)))) = 1"
    using save_keeps_distinct [OF d1] save_url_present by (rule one_row_of_distinct)
next
  assume "u \<in> set (map url (pages_table w))"
  then show "save_to_sqlite u pn af on w = (Inr (), print (Skip_duplicate u) w)"
    by (simp add: save_to_sqlite_eq)
  then show "pages_table (snd (save_to_sqlite u pn af on w)) = pages_table w"
    by simp
next
  show "distinct (map url (init_db None))"
    by (simp add: init_db_def)
next
  assume "distinct (map url (pages_table w))"
  then show "distinct (map url
      (pages_table (snd (gather (fetch_contents sess sel existing) links w))))"
    by (rule gather_fetch_contents_keeps_distinct)
next
  assume "distinct (map url (init_db db))"
  then show "distinct (map url (pages_table (snd (main sess loc sel db))))"
    by (rule main_keeps_distinct)
qed

theorem url_unique_witness:
  "distinct (map url (pages_table one_page)) \<and>
   str ''http://x/1'' \<in> set (map url (pages_table one_page)) \<and>
   save_to_sqlite (str ''http://x/1'') (str ''P2'') [] [] one_page =
     (Inr (), print (Skip_duplicate (str ''http://x/1'')) one_page) \<and>
   length (filter (\<lambda>r. url r = str ''http://x/1'')
     (pages_table (snd (save_to_sqlite (str ''http://x/1'') (str ''P2'') [] [] one_page)))) = 1 \<and>
   distinct (map url (pages_table (snd (gather (fetch_contents echo sel_bad {})
     [str ''http://x/1'', str ''http://x/2'', str ''http://x/2''] one_page)))) \<and>
   distinct (map url (init_db None)) \<and>
   distinct (map url (pages_table (snd (main first_down two_locs sel_bad None))))"
proof -
  have d: "distinct (map url (pages_table one_page))"
    by (simp add: one_page_table)
  have m: "str ''http://x/1'' \<in> set (map url (pages_table one_page))"
    by (simp add: one_page_table)
  note A = url_unique [where w = one_page and u = "str ''http://x/1''" and pn = "str ''P2''"
      and af = "[]" and on = "[]" and sess = echo and sel = sel_bad and existing = "{}"
      and links = "[str ''http://x/1'', str ''http://x/2'', str ''http://x/2'']"]
  note B = url_unique [where db = None and sess = first_down and loc = two_locs
      and sel = sel_bad]
  from B have n: "distinct (map url (init_db None))"
    by blast
  from A d m B n show ?thesis
    by blast
qed

text \<open>
  Claim C2. The per-link task changes the table only when one of the three extracted
  fields is non-empty, and an extraction of three empty fields leaves the table
  unchanged. With the fields taken from the page by the library's selector, every row of
  the table has a non-empty field after the task and after a batch of tasks, if it had
  so before; a new database has no row, and after a whole run every row has a non-empty
  field, if every row of the database had one before the run.
\<close>

theorem field_presence:
  "(pages_table (snd (fetch_contents sess sel existing link w)) \<noteq> pages_table w \<longrightarrow>
      (\<exists>pn af on. extracted sess sel link w = Some (pn, af, on) \<and>
         (pn \<noteq> [] \<or> af \<noteq> [] \<or> on \<noteq> []))) \<and>
   (extracted sess sel link w = Some ([], [], []) \<longrightarrow>
      pages_table (snd (fetch_contents sess sel existing link w)) = pages_table w) \<and>
   ((\<forall>r\<in>set (pages_table w). has_field r) \<longrightarrow>
      (\<forall>r\<in>set (pages_table
          (snd (fetch_contents sess (select_page parse) existing link w))). has_field r)) \<and>
   ((\<forall>r\<in>set (pages_table w). has_field r) \<longrightarrow>
      (\<forall>r\<in>set (pages_table
          (snd (gather (fetch_contents sess (select_page parse) existing) links w))).
         has_field r)) \<and>
   (\<forall>r\<in>set (init_db None). has_field r) \<and>
   ((\<forall>r\<in>set (init_db db). has_field r) \<longrightarrow>
      (\<forall>r\<in>set (pages_table (snd (main sess loc (select_page parse) db))). has_field r))"
proof (intro conjI impI)
  assume "pages_table (snd (fetch_contents sess sel existing link w)) \<noteq> pages_table w"
  from fetch_contents_table_changed [OF this]
  show "\<exists>pn af on. extracted sess sel link w = Some (pn, af, on) \<and>
      (pn \<noteq> [] \<or> af \<noteq> [] \<or> on \<noteq> [])"
    by blast
next
  assume e: "extracted sess sel link w = Some ([], [], [])"
  show "pages_table (snd (fetch_contents sess sel existing link w)) = pages_table w"
    using fetch_contents_table [of sess sel existing link w] e by auto
next
  assume "\<forall>r\<in>set (pages_table w). has_field r"
  then show "\<forall>r\<in>set (pages_table
      (snd (fetch_contents sess (select_page parse) existing link w))). has_field r"
    by (rule fetch_contents_select_page_has_field)
next
  assume "\<forall>r\<in>set (pages_table w). has_field r"
  then show "\<forall>r\<in>set (pages_table
      (snd (gather (fetch_contents sess (select_page parse) existing) links w))). has_field r"
    by (rule gather_select_page_has_field)
next
  show "\<forall>r\<in>set (init_db None). has_field r"
    by (simp add: init_db_def)
next
  assume "\<forall>r\<in>set (init_db db). has_field r"
  then show "\<forall>r\<in>set (pages_table (snd (main sess loc (select_page parse) db))). has_field r"
    by (rule main_select_page_has_field)
qed

theorem field_presence_witness:
  "pages_table (snd (fetch_contents (\<lambda>n u. Inr (str ''<html>'')) (select_page parse_p1) {}
      (str ''http://x/1'') empty_world)) =
     [\<lparr>row_id = 1, url = str ''http://x/1'', part_no = str ''ABC-123'',
       adaptable_for = [], orig_part_no = []\<rparr>] \<and>
   (\<exists>pn af on. extracted (\<lambda>n u. Inr (str ''<html>'')) (select_page parse_p1)
      (str ''http://x/1'') empty_world = Some (pn, af, on) \<and>
      (pn \<noteq> [] \<or> af \<noteq> [] \<or> on \<noteq> [])) \<and>
   extracted (\<lambda>n u. Inr (str ''<html>'')) (select_page parse_blank) (str ''http://x/1'')
     empty_world = Some ([], [], []) \<and>
   pages_table (snd (fetch_contents (\<lambda>n u. Inr (str ''<html>'')) (select_page parse_blank) {}
      (str ''http://x/1'') empty_world)) = [] \<and>
   list_all has_field (pages_table (snd (fetch_contents (\<lambda>n u. Inr (str ''<html>''))
      (select_page parse_p1) {} (str ''http://x/1'') empty_world))) \<and>
   list_all has_field (pages_table (snd (gather (fetch_contents (\<lambda>n u. Inr (str ''<html>''))
      (select_page parse_p1) {}) [str ''http://x/1'', str ''http://x/2''] empty_world))) \<and>
   list_all has_field (pages_table (snd (main first_down two_locs (select_page parse_p1) None)))"
proof -
  let ?sess = "\<lambda>(n::nat) (u::pystr). Inr (str ''<html>'') :: exc + pystr"
  let ?sel = "select_page parse_p1"
  let ?u = "str ''http://x/1''"
  have t: "pages_table (snd (fetch_contents ?sess ?sel {} ?u empty_world)) =
     [\<lparr>row_id = 1, url = ?u, part_no = str ''ABC-123'', adaptable_for = [], orig_part_no = []\<rparr>]"
    using fetch_contents_saved [of ?u "{}" ?sess ?sel empty_world "str ''ABC-123''" "[]" "[]"]
      extracted_select_p1
    by (simp add: world_eval)
  have c: "pages_table (snd (fetch_contents ?sess ?sel {} ?u empty_world)) \<noteq>
      pages_table empty_world"
    unfolding t by (simp add: empty_world_def)
  have i: "\<forall>r\<in>set (pages_table empty_world). has_field r"
    by (simp add: empty_world_def)
  note A = field_presence [of ?sess ?sel "{}" ?u empty_world parse_p1
      "[str ''http://x/1'', str ''http://x/2'']" None two_locs]
  note B = field_presence [of ?sess "select_page parse_blank" "{}" ?u empty_world parse_p1
      "[]" None two_locs]
  note C = field_presence [of first_down ?sel "{}" ?u empty_world parse_p1 "[]" None two_locs]
  from A c have a: "\<exists>pn af on. extracted ?sess ?sel ?u empty_world = Some (pn, af, on) \<and>
      (pn \<noteq> [] \<or> af \<noteq> [] \<or> on \<noteq> [])"
    by blast
  from B extracted_select_blank
  have b: "pages_table (snd (fetch_contents ?sess (select_page parse_blank) {} ?u empty_world)) = []"
    by (simp add: empty_world_def)
  from A i
  have h: "list_all has_field (pages_table (snd (fetch_contents ?sess ?sel {} ?u empty_world)))"
    unfolding list_all_iff by blast
  from A i
  have k: "list_all has_field (pages_table (snd (gather (fetch_contents ?sess ?sel {})
      [str ''http://x/1'', str ''http://x/2''] empty_world)))"
    unfolding list_all_iff by blast
  from C have n: "\<forall>r\<in>set (init_db None). has_field r"
    by blast
  with C
  have m: "list_all has_field (pages_table (snd (main first_down two_locs ?sel None)))"
    unfolding list_all_iff by blast
  from t a extracted_select_blank b h k m show ?thesis
    by blast
qed


lemma fetch_contents_sleeps:
  "sleeps (snd (fetch_contents sess sel existing link w)) = sleeps w"
  by (cases rule: fetch_contents_cases [of link existing sess sel w])
    (simp_all add: save_to_sqlite_eq)

text \<open>
  Claim C5. A link in the set of existing keys is skipped at once: the task prints the
  skip, issues no request and leaves the table unchanged. For a link outside the set
  exactly one request is issued; when its page is fetched and parsed and one of the
  fields is non-empty, the link has a row in the table afterwards, the new row with the
  sanitised fields if the table had none for it. Over a batch, the requests are those of
  the links outside the set, in order. The set of existing keys is the set of the urls
  of the table; \<^verbatim>\<open>main\<close> loads it before any request, and requests the two
  sitemaps and then the extracted links that are not in it.
\<close>

theorem skip_existing:
  "(link \<in> existing \<longrightarrow>
      fetch_contents sess sel existing link w = (Inr (), print (Skip_processed link) w) \<and>
      requests (snd (fetch_contents sess sel existing link w)) = requests w \<and>
      pages_table (snd (fetch_contents sess sel existing link w)) = pages_table w) \<and>
   (link \<notin> existing \<longrightarrow>
      requests (snd (fetch_contents sess sel existing link w)) = requests w @ [link]) \<and>
   (link \<notin> existing \<and> extracted sess sel link w = Some (pn, af, on) \<and>
    (pn \<noteq> [] \<or> af \<noteq> [] \<or> on \<noteq> []) \<longrightarrow>
      link \<in> set (map url (pages_table (snd (fetch_contents sess sel existing link w)))) \<and>
      (link \<notin> set (map url (pages_table w)) \<longrightarrow>
         pages_table (snd (fetch_contents sess sel existing link w)) =
           pages_table w @ [stored_row (pages_table w) link pn af on])) \<and>
   requests (snd (gather (fetch_contents sess sel existing) links w)) =
     requests w @ filter (\<lambda>l. l \<notin> existing) links \<and>
   get_existing_urls w = set (map url (pages_table w)) \<and>
   requests (snd (main sess loc sel db)) =
     seed_urls @ filter (\<lambda>l. l \<notin> set (map url (init_db db))) (main_links sess loc)"
proof (intro conjI impI)
  assume "link \<in> existing"
  then show s: "fetch_contents sess sel existing link w = (Inr (), print (Skip_processed link) w)"
    by (rule fetch_contents_skip)
  show "requests (snd (fetch_contents sess sel existing link w)) = requests w"
    unfolding s by simp
  show "pages_table (snd (fetch_contents sess sel existing link w)) = pages_table w"
    unfolding s by simp
next
  assume "link \<notin> existing"
  then show "requests (snd (fetch_contents sess sel existing link w)) = requests w @ [link]"
    by (simp add: fetch_contents_requests)
next
  assume a: "link \<notin> existing \<and> extracted sess sel link w = Some (pn, af, on) \<and>
    (pn \<noteq> [] \<or> af \<noteq> [] \<or> on \<noteq> [])"
  then show "link \<in> set (map url (pages_table (snd (fetch_contents sess sel existing link w))))"
    by (intro fetch_contents_stored(1)) blast+
  show "pages_table (snd (fetch_contents sess sel existing link w)) =
      pages_table w @ [stored_row (pages_table w) link pn af on]"
    if "link \<notin> set (map url (pages_table w))"
    using a that by (intro fetch_contents_stored(2)) blast+
next
  show "requests (snd (gather (fetch_contents sess sel existing) links w)) =
      requests w @ filter (\<lambda>l. l \<notin> existing) links"
    by (rule gather_fetch_contents_requests)
  show "get_existing_urls w = set (map url (pages_table w))"
    by (simp add: get_existing_urls_def)
  show "requests (snd (main sess loc sel db)) =
      seed_urls @ filter (\<lambda>l. l \<notin> set (map url (init_db db))) (main_links sess loc)"
    by (rule main_requests)
qed

theorem skip_existing_witness:
  "str ''http://x/1'' \<in> get_existing_urls one_page \<and>
   fetch_contents (\<lambda>n u. Inr (str ''<html>'')) (\<lambda>c. Inr page_p1) (get_existing_urls one_page)
      (str ''http://x/1'') one_page =
     (Inr (), print (Skip_processed (str ''http://x/1'')) one_page) \<and>
   requests (snd (fetch_contents (\<lambda>n u. Inr (str ''<html>'')) (\<lambda>c. Inr page_p1)
      (get_existing_urls one_page) (str ''http://x/1'') one_page)) = [] \<and>
   requests (snd (fetch_contents (\<lambda>n u. Inr (str ''<html>'')) (\<lambda>c. Inr page_p1) {}
      (str ''http://x/1'') empty_world)) = [str ''http://x/1''] \<and>
   pages_table (snd (fetch_contents (\<lambda>n u. Inr (str ''<html>'')) (\<lambda>c. Inr page_p1) {}
      (str ''http://x/1'') empty_world)) =
     [\<lparr>row_id = 1, url = str ''http://x/1'', part_no = str ''ABC-123'',
       adaptable_for = [], orig_part_no = []\<rparr>]"
proof -
  let ?sess = "\<lambda>(n::nat) (u::pystr). Inr (str ''<html>'') :: exc + pystr"
  let ?sel = "\<lambda>c::pystr. Inr page_p1 :: exc + extraction"
  let ?u = "str ''http://x/1''"
  have m: "?u \<in> get_existing_urls one_page"
    by (simp add: get_existing_urls_def one_page_table)
  have r: "requests one_page = []"
    by (simp add: one_page_def world_eval)
  have n: "?u \<notin> {}" "?u \<notin> set (map url (pages_table empty_world))"
    by (simp_all add: empty_world_def)
  have f: "str ''ABC-123'' \<noteq> [] \<or> ([]::pystr) \<noteq> [] \<or> ([]::pystr) \<noteq> []"
    by (simp add: str_def)
  have q: "requests empty_world = []" "pages_table empty_world = []"
    by (simp_all add: empty_world_def)
  have st: "stored_row [] ?u (str ''ABC-123'') [] [] =
      \<lparr>row_id = 1, url = ?u, part_no = str ''ABC-123'', adaptable_for = [], orig_part_no = []\<rparr>"
    by (simp add: world_eval)
  note A = skip_existing [of ?u "get_existing_urls one_page" ?sess ?sel one_page "[]" "[]" "[]" "[]"]
  note B = skip_existing [of ?u "{}" ?sess ?sel empty_world "str ''ABC-123''" "[]" "[]" "[]"]
  from A m have a1: "fetch_contents ?sess ?sel (get_existing_urls one_page) ?u one_page =
      (Inr (), print (Skip_processed ?u) one_page)"
    by blast
  from A m have "requests (snd (fetch_contents ?sess ?sel (get_existing_urls one_page) ?u
      one_page)) = requests one_page"
    by blast
  then have a2: "requests (snd (fetch_contents ?sess ?sel (get_existing_urls one_page) ?u
      one_page)) = []"
    unfolding r .
  from B n(1) have "requests (snd (fetch_contents ?sess ?sel {} ?u empty_world)) =
      requests empty_world @ [?u]"
    by blast
  then have b1: "requests (snd (fetch_contents ?sess ?sel {} ?u empty_world)) = [?u]"
    unfolding q by simp
  from B n extracted_p1 f
  have "pages_table (snd (fetch_contents ?sess ?sel {} ?u empty_world)) =
      pages_table empty_world @ [stored_row (pages_table empty_world) ?u (str ''ABC-123'') [] []]"
    by blast
  then have b2: "pages_table (snd (fetch_contents ?sess ?sel {} ?u empty_world)) =
     [\<lparr>row_id = 1, url = ?u, part_no = str ''ABC-123'', adaptable_for = [], orig_part_no = []\<rparr>]"
    unfolding q st by simp
  from m a1 a2 b1 b2 show ?thesis
    by blast
qed

section \<open>Claims about sanitising, failures and retries\<close>



text \<open>
  Claim C9. Neither the per-link task nor the extraction of links ever hands an exception
  to its caller. A sitemap whose parse raises gives no links; a page whose fetch or parse
  raises gives no data: the task prints the error and leaves the table unchanged. In a
  batch every task completes, and a link whose page is fetched and parsed with a
  non-empty field has its row in the table after the batch, whatever happened to the
  links before and after it.
\<close>

theorem failures_isolated:
  "fst (fetch_contents sess sel existing link w) = Inr () \<and>
   fst (extract_links loc page w) = Inr (case loc page of Inl e \<Rightarrow> [] | Inr links \<Rightarrow> links) \<and>
   (loc page = Inl e \<longrightarrow> extract_links loc page w = (Inr [], print (Error_extracting e) w)) \<and>
   (link \<notin> existing \<and> sess (length (requests w)) link = Inr content \<and> sel content = Inl e \<longrightarrow>
      fetch_contents sess sel existing link w =
        (Inr (), print (Error_parsing link e) (w\<lparr>requests := requests w @ [link]\<rparr>))) \<and>
   (extracted sess sel link w = None \<longrightarrow>
      pages_table (snd (fetch_contents sess sel existing link w)) = pages_table w) \<and>
   fst (gather (fetch_contents sess sel existing) links w) = Inr (replicate (length links) ()) \<and>
   (links = xs @ l # ys \<and> l \<notin> existing \<and>
    extracted sess sel l (snd (gather (fetch_contents sess sel existing) xs w)) =
      Some (pn, af, on) \<and>
    (pn \<noteq> [] \<or> af \<noteq> [] \<or> on \<noteq> []) \<longrightarrow>
      l \<in> set (map url
        (pages_table (snd (gather (fetch_contents sess sel existing) links w)))))"
proof (intro conjI impI)
  show "fst (fetch_contents sess sel existing link w) = Inr ()"
    by (rule fetch_contents_result)
  show "fst (extract_links loc page w) = Inr (case loc page of Inl e \<Rightarrow> [] | Inr links \<Rightarrow> links)"
    by (simp add: extract_links_def split: sum.splits)
  show "extract_links loc page w = (Inr [], print (Error_extracting e) w)" if "loc page = Inl e"
    using that by (simp add: extract_links_def)
  show "fetch_contents sess sel existing link w =
      (Inr (), print (Error_parsing link e) (w\<lparr>requests := requests w @ [link]\<rparr>))"
    if "link \<notin> existing \<and> sess (length (requests w)) link = Inr content \<and> sel content = Inl e"
    using that by (simp add: fetch_contents_def fetch_contents_try_def session_get_def)
  show "pages_table (snd (fetch_contents sess sel existing link w)) = pages_table w"
    if "extracted sess sel link w = None"
    using fetch_contents_table [of sess sel existing link w] that by auto
  show "fst (gather (fetch_contents sess sel existing) links w) =
      Inr (replicate (length links) ())"
    by (rule gather_fetch_contents_result)
  show "l \<in> set (map url (pages_table (snd (gather (fetch_contents sess sel existing) links w))))"
    if "links = xs @ l # ys \<and> l \<notin> existing \<and>
      extracted sess sel l (snd (gather (fetch_contents sess sel existing) xs w)) =
        Some (pn, af, on) \<and>
      (pn \<noteq> [] \<or> af \<noteq> [] \<or> on \<noteq> [])"
    using that by (intro gather_fetch_contents_stored [of links xs l ys]) blast+
qed

theorem failures_isolated_witness:
  "fetch_contents echo sel_bad {} (str ''http://x/bad'') empty_world =
     (Inr (), print (Error_parsing (str ''http://x/bad'') (OtherException (str ''boom'')))
        (empty_world\<lparr>requests := [str ''http://x/bad'']\<rparr>)) \<and>
   extracted echo sel_bad (str ''http://x/bad'') empty_world = None \<and>
   pages_table (snd (fetch_contents echo sel_bad {} (str ''http://x/bad'') empty_world)) =
     pages_table empty_world \<and>
   extracted echo sel_bad (str ''http://x/2'')
     (snd (gather (fetch_contents echo sel_bad {}) [str ''http://x/bad''] empty_world)) =
     Some (str ''ABC-123'', [], []) \<and>
   str ''http://x/2'' \<in> set (map url (pages_table (snd (gather (fetch_contents echo sel_bad {})
     [str ''http://x/bad'', str ''http://x/2''] empty_world)))) \<and>
   extract_links (\<lambda>p. Inl (OtherException (str ''boom''))) (str ''<xml>'') empty_world =
     (Inr [], print (Error_extracting (OtherException (str ''boom''))) empty_world)"
proof -
  let ?bad = "str ''http://x/bad''"
  let ?good = "str ''http://x/2''"
  let ?boom = "OtherException (str ''boom'')"
  note A = failures_isolated [of echo sel_bad "{}" ?bad empty_world
      "\<lambda>p. Inl ?boom" "str ''<xml>''" ?boom ?bad
      "[?bad, ?good]" "[?bad]" ?good "[]" "str ''ABC-123''" "[]" "[]"]
  have h1: "?bad \<notin> {} \<and> echo (length (requests empty_world)) ?bad = Inr ?bad \<and>
      sel_bad ?bad = Inl ?boom"
    by (simp add: echo_def sel_bad_def)
  have r0: "requests empty_world = []"
    by (simp add: empty_world_def)
  from A h1 have a1: "fetch_contents echo sel_bad {} ?bad empty_world =
      (Inr (), print (Error_parsing ?bad ?boom) (empty_world\<lparr>requests := [?bad]\<rparr>))"
    unfolding r0 by simp
  have n: "extracted echo sel_bad ?bad empty_world = None"
    by (simp add: extracted_def echo_def sel_bad_def)
  from A n have a0: "pages_table (snd (fetch_contents echo sel_bad {} ?bad empty_world)) =
      pages_table empty_world"
    by blast
  have w1: "snd (gather (fetch_contents echo sel_bad {}) [?bad] empty_world) =
      print (Error_parsing ?bad ?boom) (empty_world\<lparr>requests := [?bad]\<rparr>)"
    by (simp add: a1)
  have a2: "extracted echo sel_bad ?good
      (snd (gather (fetch_contents echo sel_bad {}) [?bad] empty_world)) =
      Some (str ''ABC-123'', [], [])"
    unfolding w1
    by (simp add: extracted_def echo_def sel_bad_def page_p1_def world_eval)
  have h2: "[?bad, ?good] = [?bad] @ ?good # [] \<and> ?good \<notin> {} \<and>
      (str ''ABC-123'' \<noteq> [] \<or> ([]::pystr) \<noteq> [] \<or> ([]::pystr) \<noteq> [])"
    by (simp add: str_def)
  from A h2 a2 have a3: "?good \<in> set (map url (pages_table
      (snd (gather (fetch_contents echo sel_bad {}) [?bad, ?good] empty_world))))"
    by blast
  from A have a4: "extract_links (\<lambda>p. Inl ?boom) (str ''<xml>'') empty_world =
      (Inr [], print (Error_extracting ?boom) empty_world)"
    by blast
  from a1 n a0 a2 a3 a4 show ?thesis
    by blast
qed

lemma retry_call_again:
  assumes "f w = (Inl e, w')" "is_transient e" "attempt < 5"
  shows "retry_call f attempt w = retry_call f (Suc attempt) (wait_fixed 1 w')"
  using assms by (subst retry_call.simps) simp

lemma retry_call_gives_up:
  assumes "f w = (Inl e, w')" "is_transient e" "5 \<le> attempt"
  shows "retry_call f attempt w = (Inl RetryError, w')"
  using assms by (subst retry_call.simps) simp

lemma retry_call_always_transient:
  assumes f: "\<And>w. f w = (Inl e, g w)" and e: "is_transient e"
  shows "retry_call f 1 w =
     (Inl RetryError,
      g (wait_fixed 1 (g (wait_fixed 1 (g (wait_fixed 1 (g (wait_fixed 1 (g w)))))))))"
proof -
  have again: "retry_call f n v = retry_call f (Suc n) (wait_fixed 1 (g v))" if "n < 5" for n v
    using f e that by (rule retry_call_again)
  have "retry_call f 1 w = retry_call f 2 (wait_fixed 1 (g w))"
    using again [of 1 w] by (simp add: eval_nat_numeral)
  also have "\<dots> = retry_call f 3 (wait_fixed 1 (g (wait_fixed 1 (g w))))"
    using again [of 2] by (simp add: eval_nat_numeral)
  also have "\<dots> = retry_call f 4 (wait_fixed 1 (g (wait_fixed 1 (g (wait_fixed 1 (g w))))))"
    using again [of 3] by (simp add: eval_nat_numeral)
  also have "\<dots> = retry_call f 5
      (wait_fixed 1 (g (wait_fixed 1 (g (wait_fixed 1 (g (wait_fixed 1 (g w))))))))"
    using again [of 4] by (simp add: eval_nat_numeral)
  also have "\<dots> = (Inl RetryError,
      g (wait_fixed 1 (g (wait_fixed 1 (g (wait_fixed 1 (g (wait_fixed 1 (g w)))))))))"
    using f e by (rule retry_call_gives_up) simp
  finally show ?thesis .
qed

lemma retry_policy_five_attempts:
  "retry_call (\<lambda>w. (Inl ConnectionError, w\<lparr>requests := requests w @ [u]\<rparr>)) 1 w =
     (Inl RetryError,
      w\<lparr>sleeps := sleeps w @ replicate 4 1, requests := requests w @ replicate 5 u\<rparr>)"
proof -
  define g :: "world \<Rightarrow> world" where "g = (\<lambda>w. w\<lparr>requests := requests w @ [u]\<rparr>)"
  have t: "is_transient ConnectionError"
    by (simp add: is_transient_def)
  have "retry_call (\<lambda>w. (Inl ConnectionError, g w)) 1 w =
     (Inl RetryError,
      g (wait_fixed 1 (g (wait_fixed 1 (g (wait_fixed 1 (g (wait_fixed 1 (g w)))))))))"
    using refl t by (rule retry_call_always_transient)
  then show ?thesis
    by (simp add: g_def wait_fixed_def numeral_eq_Suc)
qed

lemma retry_policy_other_error:
  "retry_call (\<lambda>w. (Inl (OtherException m), w\<lparr>requests := requests w @ [u]\<rparr>)) 1 w =
     (Inl (OtherException m), w\<lparr>requests := requests w @ [u]\<rparr>)"
  by (rule retry_call_other) (simp_all add: is_transient_def)

lemma save_to_sqlite_one_attempt:
  "save_to_sqlite u pn af on w = save_to_sqlite_body u pn af on w"
  by (simp add: save_to_sqlite_eq save_to_sqlite_body_eq)

text \<open>
  Claim C1 is about the fetch. The retry policy of the program decorates
  \<^verbatim>\<open>save_to_sqlite\<close>, whose body raises neither of the two exceptions it retries;
  \<^verbatim>\<open>fetch_url\<close> and \<^verbatim>\<open>fetch_contents\<close> call \<^verbatim>\<open>session.get\<close> once and catch what it
  raises. So a fetch that fails with a connection error is attempted once, with no wait,
  and gives \<^verbatim>\<open>None\<close>: this is the program at the input where the claim asks for five
  attempts.
\<close>

theorem fetch_attempted_once:
  "fetch_url (\<lambda>n v. Inl ConnectionError) u w =
     (Inr None, print (Error_fetching u ConnectionError) (w\<lparr>requests := requests w @ [u]\<rparr>)) \<and>
   requests (snd (fetch_url sess u w)) = requests w @ [u] \<and>
   sleeps (snd (fetch_url sess u w)) = sleeps w \<and>
   requests (snd (fetch_contents sess sel {} u w)) = requests w @ [u] \<and>
   sleeps (snd (fetch_contents sess sel {} u w)) = sleeps w"
proof (intro conjI)
  show "fetch_url (\<lambda>n v. Inl ConnectionError) u w =
     (Inr None, print (Error_fetching u ConnectionError) (w\<lparr>requests := requests w @ [u]\<rparr>))"
    by (simp add: fetch_url_def session_get_def)
  show "requests (snd (fetch_url sess u w)) = requests w @ [u]"
    by (simp add: fetch_url_def session_get_def split: sum.splits)
  show "sleeps (snd (fetch_url sess u w)) = sleeps w"
    by (simp add: fetch_url_def session_get_def split: sum.splits)
  show "requests (snd (fetch_contents sess sel {} u w)) = requests w @ [u]"
    by (simp add: fetch_contents_requests)
  show "sleeps (snd (fetch_contents sess sel {} u w)) = sleeps w"
    by (rule fetch_contents_sleeps)
qed

section \<open>Claims about the sitemaps\<close>

text \<open>
  Claim C7. A seed whose fetch fails gives \<^verbatim>\<open>None\<close> and contributes no links. The
  links of the other seeds, in the order of the seeds and within a seed in the order of
  the document, make up the sequence of extracted links; nothing is removed from it, so
  a link occurs in it as many times as it occurs in the sitemaps together. One request
  is made for each seed.
\<close>

theorem sitemap_links_flattened:
  "fst (sitemap_links sess loc urls w) =
     Inr (concat (map (seed_links sess loc) (enumerate (length (requests w)) urls))) \<and>
   (sess (length (requests w)) u = Inl e \<longrightarrow>
      fst (fetch_url sess u w) = Inr None \<and> seed_links sess loc (length (requests w), u) = []) \<and>
   (sess (length (requests w)) u = Inr page \<and> page \<noteq> [] \<longrightarrow>
      fst (fetch_url sess u w) = Inr (Some page) \<and>
      seed_links sess loc (length (requests w), u) = links_of loc page) \<and>
   requests (snd (sitemap_links sess loc urls w)) = requests w @ urls \<and>
   count_list (concat (map (seed_links sess loc) (enumerate (length (requests w)) urls))) l =
     sum_list (map (\<lambda>nu. count_list (seed_links sess loc nu) l)
       (enumerate (length (requests w)) urls))"
proof (intro conjI impI)
  show "fst (sitemap_links sess loc urls w) =
      Inr (concat (map (seed_links sess loc) (enumerate (length (requests w)) urls)))"
    using sitemap_links_eq by blast
  show "requests (snd (sitemap_links sess loc urls w)) = requests w @ urls"
    using sitemap_links_eq by blast
  show "fst (fetch_url sess u w) = Inr None" if "sess (length (requests w)) u = Inl e"
    using that by (simp add: fetch_url_eq page_of_def)
  show "seed_links sess loc (length (requests w), u) = []"
    if "sess (length (requests w)) u = Inl e"
    using that by (simp add: seed_links_def)
  show "fst (fetch_url sess u w) = Inr (Some page)"
    if "sess (length (requests w)) u = Inr page \<and> page \<noteq> []"
    using that by (simp add: fetch_url_eq page_of_def)
  show "seed_links sess loc (length (requests w), u) = links_of loc page"
    if "sess (length (requests w)) u = Inr page \<and> page \<noteq> []"
    using that by (simp add: seed_links_def)
  show "count_list (concat (map (seed_links sess loc) (enumerate (length (requests w)) urls))) l =
      sum_list (map (\<lambda>nu. count_list (seed_links sess loc nu) l)
        (enumerate (length (requests w)) urls))"
    by (simp add: count_list_concat comp_def)
qed

theorem sitemap_links_flattened_witness:
  "first_down (length (requests empty_world)) (str ''s1'') = Inl ConnectionError \<and>
   fst (fetch_url first_down (str ''s1'') empty_world) = Inr None \<and>
   echo (length (requests empty_world)) (str ''s2'') = Inr (str ''s2'') \<and>
   fst (fetch_url echo (str ''s2'') empty_world) = Inr (Some (str ''s2'')) \<and>
   seed_links echo two_locs (0, str ''s2'') = [str ''http://x/1'', str ''http://x/2''] \<and>
   fst (sitemap_links first_down two_locs [str ''s1'', str ''s2'', str ''s3''] empty_world) =
     Inr [str ''http://x/1'', str ''http://x/2'', str ''http://x/1'', str ''http://x/2''] \<and>
   count_list [str ''http://x/1'', str ''http://x/2'', str ''http://x/1'', str ''http://x/2'']
     (str ''http://x/1'') = 2"
proof -
  have r: "length (requests empty_world) = 0"
    by (simp add: empty_world_def)
  have d: "first_down (length (requests empty_world)) (str ''s1'') = Inl ConnectionError"
    by (simp add: first_down_def r)
  have u: "echo (length (requests empty_world)) (str ''s2'') = Inr (str ''s2'') \<and>
      str ''s2'' \<noteq> []"
    by (simp add: echo_def str_def)
  have l: "links_of two_locs (str ''s2'') = [str ''http://x/1'', str ''http://x/2'']"
    by (simp add: links_of_def two_locs_def)
  have c: "concat (map (seed_links first_down two_locs)
      (enumerate 0 [str ''s1'', str ''s2'', str ''s3''])) =
      [str ''http://x/1'', str ''http://x/2'', str ''http://x/1'', str ''http://x/2'']"
    by (simp add: seed_links_def first_down_def two_locs_def links_of_def str_def)
  have k: "count_list [str ''http://x/1'', str ''http://x/2'', str ''http://x/1'',
      str ''http://x/2''] (str ''http://x/1'') = 2"
    by (simp add: str_def)
  note A = sitemap_links_flattened [of first_down two_locs "[str ''s1'', str ''s2'', str ''s3'']"
      empty_world "str ''s1''" ConnectionError "[]" "str ''http://x/1''"]
  note B = sitemap_links_flattened [of echo two_locs "[]" empty_world "str ''s2''"
      ConnectionError "str ''s2''" "[]"]
  from A d have a1: "fst (fetch_url first_down (str ''s1'') empty_world) = Inr None"
    by blast
  from A have a2: "fst (sitemap_links first_down two_locs [str ''s1'', str ''s2'', str ''s3'']
      empty_world) =
      Inr [str ''http://x/1'', str ''http://x/2'', str ''http://x/1'', str ''http://x/2'']"
    unfolding r c by blast
  from B u have b1: "fst (fetch_url echo (str ''s2'') empty_world) = Inr (Some (str ''s2''))"
    by blast
  from B u have b2: "seed_links echo two_locs (0, str ''s2'') =
      [str ''http://x/1'', str ''http://x/2'']"
    unfolding r l by blast
  from d a1 u b1 b2 a2 k show ?thesis
    by blast
qed

section \<open>Claims about the export\<close>

text \<open>
  A reader for the format, after the reader of the \<^verbatim>\<open>csv\<close> module: it is what
  ``standard quoting'' is measured against. It reads one code point at a time, holding
  the state of the automaton, the field being read and the fields of the record being
  read, and gives the records in the order they end.
\<close>

datatype rstate = Start_record | Start_field | In_field | In_quoted_field | Quote_in_quoted_field

type_synonym reader = "rstate \<times> pystr \<times> pystr list"

definition field_start :: "pystr list \<Rightarrow> nat \<Rightarrow> reader \<times> pystr list option" where
  "field_start rc c =
     (if c = 34 then ((In_quoted_field, [], rc), None)
      else if c = 44 then ((Start_field, [], rc @ [[]]), None)
      else if c = 13 \<or> c = 10 then ((Start_record, [], []), Some (rc @ [[]]))
      else ((In_field, [c], rc), None))"

definition field_end :: "pystr \<Rightarrow> pystr list \<Rightarrow> nat \<Rightarrow> reader \<times> pystr list option" where
  \<comment> \<open>after an unquoted code point or a closing quote\<close>
  "field_end fld rc c =
     (if c = 44 then ((Start_field, [], rc @ [fld]), None)
      else if c = 13 \<or> c = 10 then ((Start_record, [], []), Some (rc @ [fld]))
      else ((In_field, fld @ [c], rc), None))"

fun csv_reader_step :: "reader \<Rightarrow> nat \<Rightarrow> reader \<times> pystr list option" where
  "csv_reader_step (Start_record, fld, rc) c =
     (if c = 13 \<or> c = 10 then ((Start_record, [], []), None) else field_start rc c)"
| "csv_reader_step (Start_field, fld, rc) c = field_start rc c"
| "csv_reader_step (In_field, fld, rc) c = field_end fld rc c"
| "csv_reader_step (In_quoted_field, fld, rc) c =
     (if c = 34 then ((Quote_in_quoted_field, fld, rc), None)
      else ((In_quoted_field, fld @ [c], rc), None))"
| "csv_reader_step (Quote_in_quoted_field, fld, rc) c =
     (if c = 34 then ((In_quoted_field, fld @ [34], rc), None) else field_end fld rc c)"

fun csv_reader :: "reader \<Rightarrow> pystr \<Rightarrow> pystr list list" where
  "csv_reader (st, fld, rc) [] = (if st = Start_record then [] else [rc @ [fld]])"
| "csv_reader r (c # cs) =
     (case csv_reader_step r c of
        (r', None) \<Rightarrow> csv_reader r' cs
      | (r', Some fs) \<Rightarrow> fs # csv_reader r' cs)"

definition csv_read :: "pystr \<Rightarrow> pystr list list" where
  "csv_read file = csv_reader (Start_record, [], []) file"

lemma writerows_eq: "writerows rows buf = buf @ concat (map csv_record rows)"
  unfolding writerows_def
  by (induction rows arbitrary: buf) (simp_all add: writerow_def)

lemma export_to_csv_eq:
  "export_to_csv t = csv_record csv_header @ concat (map csv_record (select_all t))"
  by (simp add: export_to_csv_def writerows_eq writerow_def)

lemma csv_header_line:
  "csv_record csv_header = str ''url,part_no,adaptable_for,orig_part_no'' @ [13, 10]"
  by (simp add: csv_record_def csv_header_def csv_field_def csv_special_def str_def)

lemma read_unquoted:
  assumes "\<not> list_ex csv_special f"
  shows "csv_reader (In_field, fld, rc) (f @ rest) = csv_reader (In_field, fld @ f, rc) rest"
  using assms
  by (induction f arbitrary: fld) (simp_all add: field_end_def csv_special_def)

lemma read_quoted:
  "csv_reader (In_quoted_field, fld, rc)
     (concat (map (\<lambda>c. if c = 34 then [34, 34] else [c]) f) @ 34 # rest) =
   csv_reader (Quote_in_quoted_field, fld @ f, rc) rest"
  by (induction f arbitrary: fld) simp_all

lemma read_field_start:
  assumes "\<not> list_ex csv_special f" "f \<noteq> []"
  shows "csv_reader (Start_field, [], rc) (f @ rest) = csv_reader (In_field, f, rc) rest"
proof -
  obtain c f' where f: "f = c # f'"
    using assms(2) by (cases f) auto
  with assms(1) have "csv_reader (Start_field, [], rc) (f @ rest) =
      csv_reader (In_field, [c], rc) (f' @ rest)"
    by (simp add: field_start_def csv_special_def)
  also have "\<dots> = csv_reader (In_field, [c] @ f', rc) rest"
    using assms(1) f by (intro read_unquoted) simp
  finally show ?thesis
    using f by simp
qed

lemma read_field_comma:
  "csv_reader (Start_field, [], rc) (csv_field f @ 44 # rest) =
     csv_reader (Start_field, [], rc @ [f]) rest"
proof (cases "list_ex csv_special f")
  case True
  then have "csv_reader (Start_field, [], rc) (csv_field f @ 44 # rest) =
      csv_reader (In_quoted_field, [], rc)
        (concat (map (\<lambda>c. if c = 34 then [34, 34] else [c]) f) @ 34 # 44 # rest)"
    by (simp add: csv_field_def field_start_def)
  also have "\<dots> = csv_reader (Quote_in_quoted_field, [] @ f, rc) (44 # rest)"
    by (rule read_quoted)
  finally show ?thesis
    by (simp add: field_end_def)
next
  case False
  show ?thesis
  proof (cases "f = []")
    case True
    then show ?thesis
      by (simp add: csv_field_def field_start_def)
  next
    case ne: False
    have "csv_reader (Start_field, [], rc) (csv_field f @ 44 # rest) =
        csv_reader (In_field, f, rc) (44 # rest)"
      using False ne by (simp add: csv_field_def read_field_start)
    then show ?thesis
      by (simp add: field_end_def)
  qed
qed

lemma read_field_crlf:
  "csv_reader (Start_field, [], rc) (csv_field f @ 13 # 10 # rest) =
     (rc @ [f]) # csv_reader (Start_record, [], []) rest"
proof (cases "list_ex csv_special f")
  case True
  then have "csv_reader (Start_field, [], rc) (csv_field f @ 13 # 10 # rest) =
      csv_reader (In_quoted_field, [], rc)
        (concat (map (\<lambda>c. if c = 34 then [34, 34] else [c]) f) @ 34 # 13 # 10 # rest)"
    by (simp add: csv_field_def field_start_def)
  also have "\<dots> = csv_reader (Quote_in_quoted_field, [] @ f, rc) (13 # 10 # rest)"
    by (rule read_quoted)
  finally show ?thesis
    by (simp add: field_end_def)
next
  case False
  show ?thesis
  proof (cases "f = []")
    case True
    then show ?thesis
      by (simp add: csv_field_def field_start_def)
  next
    case ne: False
    have "csv_reader (Start_field, [], rc) (csv_field f @ 13 # 10 # rest) =
        csv_reader (In_field, f, rc) (13 # 10 # rest)"
      using False ne by (simp add: csv_field_def read_field_start)
    then show ?thesis
      by (simp add: field_end_def)
  qed
qed

lemma read_fields:
  assumes "fs \<noteq> []"
  shows "csv_reader (Start_field, [], rc) (py_join [44] (map csv_field fs) @ 13 # 10 # rest) =
     (rc @ fs) # csv_reader (Start_record, [], []) rest"
  using assms
proof (induction fs arbitrary: rc rule: induct_list012)
  case 1
  then show ?case by simp
next
  case (2 f)
  then show ?case
    by (simp add: read_field_crlf)
next
  case (3 f g gs)
  have "csv_reader (Start_field, [], rc)
      (py_join [44] (map csv_field (f # g # gs)) @ 13 # 10 # rest) =
      csv_reader (Start_field, [], rc @ [f]) (py_join [44] (map csv_field (g # gs)) @ 13 # 10 # rest)"
    by (simp add: read_field_comma)
  also have "\<dots> = ((rc @ [f]) @ g # gs) # csv_reader (Start_record, [], []) rest"
    by (rule "3.IH"(2)) simp
  finally show ?case
    by simp
qed

lemma csv_field_first:
  "(f = [] \<and> csv_field f = []) \<or> (\<exists>c cs. csv_field f = c # cs \<and> c \<noteq> 13 \<and> c \<noteq> 10)"
proof (cases "list_ex csv_special f")
  case True
  then show ?thesis
    by (simp add: csv_field_def)
next
  case False
  then show ?thesis
    by (cases f) (auto simp: csv_field_def csv_special_def)
qed

lemma record_first:
  assumes "fs \<noteq> []" "fs \<noteq> [[]]"
  shows "\<exists>c cs. py_join [44] (map csv_field fs) @ 13 # 10 # rest = c # cs \<and> c \<noteq> 13 \<and> c \<noteq> 10"
proof -
  from assms(1) obtain f gs where fs: "fs = f # gs"
    by (cases fs) auto
  show ?thesis
  proof (cases gs)
    case Nil
    with assms fs have "f \<noteq> []" by simp
    with csv_field_first [of f] fs Nil show ?thesis
      by auto
  next
    case (Cons g hs)
    with csv_field_first [of f] fs show ?thesis
      by auto
  qed
qed

lemma read_record:
  assumes "fs \<noteq> []"
  shows "csv_reader (Start_record, [], []) (csv_record fs @ rest) =
     fs # csv_reader (Start_record, [], []) rest"
proof (cases "fs = [[]]")
  case True
  then show ?thesis
    by (simp add: csv_record_def field_start_def field_end_def)
next
  case False
  from record_first [OF assms False, of rest] obtain c cs where
    c: "py_join [44] (map csv_field fs) @ 13 # 10 # rest = c # cs" "c \<noteq> 13" "c \<noteq> 10"
    by blast
  have "csv_reader (Start_record, [], []) (csv_record fs @ rest) =
      csv_reader (Start_record, [], []) (c # cs)"
    using False c(1) by (simp add: csv_record_def)
  also have "\<dots> = csv_reader (Start_field, [], []) (c # cs)"
    using c(2,3) by simp
  also have "\<dots> = ([] @ fs) # csv_reader (Start_record, [], []) rest"
    unfolding c(1) [symmetric] using assms by (rule read_fields)
  finally show ?thesis
    by simp
qed

lemma read_records:
  assumes "\<forall>fs\<in>set rows. fs \<noteq> []"
  shows "csv_read (concat (map csv_record rows)) = rows"
  using assms unfolding csv_read_def
  by (induction rows) (simp_all add: read_record del: csv_reader.simps(2))

lemma read_export: "csv_read (export_to_csv t) = csv_header # select_all t"
proof -
  have "export_to_csv t = concat (map csv_record (csv_header # select_all t))"
    by (simp add: export_to_csv_eq)
  moreover have "\<forall>fs\<in>set (csv_header # select_all t). fs \<noteq> []"
    by (auto simp: csv_header_def select_all_def)
  ultimately show ?thesis
    by (simp only: read_records)
qed

text \<open>
  Claim C6. The exported text begins with the line \<open>url,part_no,adaptable_for,orig_part_no\<close>
  and goes on with one record for each row of the table, in the order of the table. A
  reader of the format finds in it the header and then the four columns of each stored
  row, unchanged and in order, so one data row for each stored row; a field that holds a
  comma is written between double quotes. The row
  \<open>("http://x/1", "P1", "A, B", "O1, O2")\<close> gives the line
  \<open>http://x/1,P1,"A, B","O1, O2"\<close>.
\<close>

theorem export_complete:
  "export_to_csv t =
     str ''url,part_no,adaptable_for,orig_part_no'' @ [13, 10] @
     concat (map (\<lambda>r. csv_record [url r, part_no r, adaptable_for r, orig_part_no r]) t) \<and>
   csv_read (export_to_csv t) =
     csv_header # map (\<lambda>r. [url r, part_no r, adaptable_for r, orig_part_no r]) t \<and>
   length (csv_read (export_to_csv t)) = Suc (length t) \<and>
   (44 \<in> set f \<longrightarrow>
      csv_field f = [34] @ concat (map (\<lambda>c. if c = 34 then [34, 34] else [c]) f) @ [34]) \<and>
   (\<not> list_ex csv_special f \<longrightarrow> csv_field f = f)"
proof (intro conjI impI)
  show "export_to_csv t =
     str ''url,part_no,adaptable_for,orig_part_no'' @ [13, 10] @
     concat (map (\<lambda>r. csv_record [url r, part_no r, adaptable_for r, orig_part_no r]) t)"
    by (simp add: export_to_csv_eq csv_header_line select_all_def comp_def)
  show r: "csv_read (export_to_csv t) =
     csv_header # map (\<lambda>r. [url r, part_no r, adaptable_for r, orig_part_no r]) t"
    by (simp add: read_export select_all_def)
  show "length (csv_read (export_to_csv t)) = Suc (length t)"
    unfolding r by simp
  show "csv_field f = [34] @ concat (map (\<lambda>c. if c = 34 then [34, 34] else [c]) f) @ [34]"
    if "44 \<in> set f"
    using that by (auto simp: csv_field_def list_ex_iff csv_special_def)
  show "csv_field f = f" if "\<not> list_ex csv_special f"
    using that by (simp add: csv_field_def)
qed

theorem export_complete_witness:
  "44 \<in> set (str ''A, B'') \<and>
   csv_field (str ''A, B'') = [34] @ str ''A, B'' @ [34] \<and>
   csv_field (str ''P1'') = str ''P1'' \<and>
   export_to_csv
     [\<lparr>row_id = 1, url = str ''http://x/1'', part_no = str ''P1'',
       adaptable_for = str ''A, B'', orig_part_no = str ''O1, O2''\<rparr>] =
     str ''url,part_no,adaptable_for,orig_part_no'' @ [13, 10] @
     str ''http://x/1,P1,'' @ [34] @ str ''A, B'' @ [34, 44, 34] @ str ''O1, O2'' @ [34, 13, 10]"
proof -
  have m: "44 \<in> set (str ''A, B'')"
    by (simp add: str_def)
  have n: "\<not> list_ex csv_special (str ''P1'')"
    by (simp add: str_def csv_special_def)
  have q: "[34] @ concat (map (\<lambda>c. if c = 34 then [34, 34] else [c]) (str ''A, B'')) @ [34] =
      [34] @ str ''A, B'' @ [34]"
    by (simp add: str_def)
  have e: "concat (map (\<lambda>r. csv_record [url r, part_no r, adaptable_for r, orig_part_no r])
      [\<lparr>row_id = 1, url = str ''http://x/1'', part_no = str ''P1'',
        adaptable_for = str ''A, B'', orig_part_no = str ''O1, O2''\<rparr>]) =
      str ''http://x/1,P1,'' @ [34] @ str ''A, B'' @ [34, 44, 34] @ str ''O1, O2'' @ [34, 13, 10]"
    by (simp add: csv_record_def csv_field_def csv_special_def str_def)
  note A = export_complete [of
      "[\<lparr>row_id = 1, url = str ''http://x/1'', part_no = str ''P1'',
         adaptable_for = str ''A, B'', orig_part_no = str ''O1, O2''\<rparr>]" "str ''A, B''"]
  note B = export_complete [of "[]" "str ''P1''"]
  from A m have a1: "csv_field (str ''A, B'') = [34] @ str ''A, B'' @ [34]"
    unfolding q by blast
  from B n have a2: "csv_field (str ''P1'') = str ''P1''"
    by blast
  from A have a3: "export_to_csv
     [\<lparr>row_id = 1, url = str ''http://x/1'', part_no = str ''P1'',
       adaptable_for = str ''A, B'', orig_part_no = str ''O1, O2''\<rparr>] =
     str ''url,part_no,adaptable_for,orig_part_no'' @ [13, 10] @
     str ''http://x/1,P1,'' @ [34] @ str ''A, B'' @ [34, 44, 34] @ str ''O1, O2'' @ [34, 13, 10]"
    unfolding e by blast
  from m a1 a2 a3 show ?thesis
    by blast
qed

end
